theory Spec2Isabelle
  imports Complex_Main
begin

section \<open>Python string primitives used by gitai.py\<close>

text \<open>
  A Python \<open>str\<close> is a sequence of code points. It is modelled as an Isabelle
  \<open>string\<close>; a \<open>char\<close> stands for the code point with the same number, so the
  model covers the code points U+0000 to U+00FF. The character classes below are
  those of CPython for that range.
\<close>

definition NL :: char where
  "NL = CHR 0x0A"

definition CR :: char where
  "CR = CHR 0x0D"

text \<open>\<open>str.isspace\<close> on one character: the characters \<open>str.strip()\<close> removes.\<close>

definition is_space :: "char \<Rightarrow> bool" where
  "is_space c \<longleftrightarrow> c \<in> set [CHR 0x09, CHR 0x0A, CHR 0x0B, CHR 0x0C, CHR 0x0D,
     CHR 0x1C, CHR 0x1D, CHR 0x1E, CHR 0x1F, CHR 0x20, CHR 0x85, CHR 0xA0]"

text \<open>The line boundaries of \<open>str.splitlines()\<close>.\<close>

definition is_linebreak :: "char \<Rightarrow> bool" where
  "is_linebreak c \<longleftrightarrow> c \<in> set [CHR 0x0A, CHR 0x0B, CHR 0x0C, CHR 0x0D,
     CHR 0x1C, CHR 0x1D, CHR 0x1E, CHR 0x85]"

definition lstrip :: "string \<Rightarrow> string" where
  "lstrip s = dropWhile is_space s"

definition rstrip :: "string \<Rightarrow> string" where
  "rstrip s = rev (dropWhile is_space (rev s))"

definition strip :: "string \<Rightarrow> string" where
  "strip s = rstrip (lstrip s)"

text \<open>\<open>s.startswith(p)\<close>.\<close>

definition startswith :: "string \<Rightarrow> string \<Rightarrow> bool" where
  "startswith s p \<longleftrightarrow> take (length p) s = p"

text \<open>\<open>str.lower()\<close>: A-Z and the Latin-1 capitals U+00C0-U+00DE (without U+00D7).\<close>

definition lower_char :: "char \<Rightarrow> char" where
  "lower_char c =
     (let n = (of_char c :: nat)
      in if (65 \<le> n \<and> n \<le> 90) \<or> (192 \<le> n \<and> n \<le> 222 \<and> n \<noteq> 215)
         then char_of (n + 32) else c)"

definition lower :: "string \<Rightarrow> string" where
  "lower s = map lower_char s"

text \<open>
  After a carriage return, a line feed belongs to the same line boundary:
  \<open>skip_lf c cs\<close> is what is left of \<open>cs\<close> after the boundary that starts with \<open>c\<close>.
\<close>

definition skip_lf :: "char \<Rightarrow> string \<Rightarrow> string" where
  "skip_lf c cs = (if c = CR \<and> cs \<noteq> [] \<and> hd cs = NL then tl cs else cs)"

text \<open>Putting a character in front of the first line of a list of lines.\<close>

fun cons_first :: "char \<Rightarrow> string list \<Rightarrow> string list" where
  "cons_first c [] = [[c]]"
| "cons_first c (l # ls) = (c # l) # ls"

text \<open>
  \<open>str.splitlines()\<close>: the lines without their boundaries; a boundary at the very
  end opens no further line, and the empty string has no line.
\<close>

function splitlines :: "string \<Rightarrow> string list" where
  "splitlines [] = []"
| "splitlines (c # cs) =
     (if is_linebreak c then [] # splitlines (skip_lf c cs)
      else cons_first c (splitlines cs))"
  by pat_completeness auto
termination
  by (relation "measure length") (auto simp: skip_lf_def)

text \<open>\<open>sep.join(xs)\<close> for the separator \<open>"\n"\<close>.\<close>

fun join_nl :: "string list \<Rightarrow> string" where
  "join_nl [] = []"
| "join_nl [x] = x"
| "join_nl (x # y # ys) = x @ NL # join_nl (y # ys)"

text \<open>Decimal rendering of an integer, as \<open>f"{n}"\<close> does.\<close>

definition digit_char :: "nat \<Rightarrow> char" where
  "digit_char d = ''0123456789'' ! d"

function digits :: "nat \<Rightarrow> string" where
  "digits n = (if n < 10 then [digit_char n] else digits (n div 10) @ [digit_char (n mod 10)])"
  by pat_completeness auto
termination
  by (relation "measure id") auto

declare digits.simps [simp del]

definition str_of_int :: "int \<Rightarrow> string" where
  "str_of_int i = (if i < 0 then CHR ''-'' # digits (nat (- i)) else digits (nat i))"

section \<open>The diff reducer\<close>

text \<open>
  Python's slice \<open>xs[:n]\<close>: a negative \<open>n\<close> counts from the end.
\<close>

definition slice_to :: "'a list \<Rightarrow> int \<Rightarrow> 'a list" where
  "slice_to xs n = (if n < 0 then take (nat (int (length xs) + n)) xs else take (nat n) xs)"

text \<open>
  \<open>truncate_diff\<close>. The module global \<open>MAX_DIFF_LINES\<close>, read from the
  configuration with \<open>int(...)\<close>, is the first argument. The result is the tuple
  \<open>(text, truncated, total, kept)\<close>.
\<close>

definition truncate_diff :: "int \<Rightarrow> string \<Rightarrow> string \<times> bool \<times> int \<times> int" where
  "truncate_diff MAX_DIFF_LINES diff_text =
     (let lines = splitlines diff_text;
          total = int (length lines)
      in if total \<le> MAX_DIFF_LINES then (diff_text, False, total, total)
         else
           (let kept = slice_to lines MAX_DIFF_LINES;
                omitted = total - MAX_DIFF_LINES;
                kept = kept @ [''''];
                kept = kept @ [''[... truncated '' @ str_of_int omitted @ '' diff lines ...]'']
            in (join_nl kept, True, total, MAX_DIFF_LINES)))"

text \<open>The four branches of the loop body of \<open>simplify_diff_for_local\<close>.\<close>

definition is_file_header :: "string \<Rightarrow> bool" where
  "is_file_header line \<longleftrightarrow> startswith line ''diff --git ''"

definition is_path_header :: "string \<Rightarrow> bool" where
  "is_path_header line \<longleftrightarrow>
     startswith line ''index '' \<or> startswith line ''--- '' \<or> startswith line ''+++ ''"

definition is_hunk_header :: "string \<Rightarrow> bool" where
  "is_hunk_header line \<longleftrightarrow> startswith line ''@@''"

definition is_changed :: "string \<Rightarrow> bool" where
  "is_changed line \<longleftrightarrow>
     (startswith line ''+'' \<or> startswith line ''-'') \<and>
     \<not> (startswith line ''+++'' \<or> startswith line ''---'')"

definition truncation_marker :: "int \<Rightarrow> string" where
  "truncation_marker max_changed_lines =
     ''[... truncated after '' @ str_of_int max_changed_lines @ '' changed lines ...]''"

text \<open>
  The \<open>for\<close> loop of \<open>simplify_diff_for_local\<close> over the remaining lines, with the
  loop state \<open>out\<close> and \<open>changed\<close>; the \<open>break\<close> ends the recursion.
\<close>

fun simplify_loop :: "int \<Rightarrow> string list \<Rightarrow> string list \<Rightarrow> int \<Rightarrow> string list" where
  "simplify_loop max_changed_lines [] out changed = out"
| "simplify_loop max_changed_lines (line # rest) out changed =
     (if is_file_header line then simplify_loop max_changed_lines rest (out @ [line]) changed
      else if is_path_header line then simplify_loop max_changed_lines rest (out @ [line]) changed
      else if is_hunk_header line then simplify_loop max_changed_lines rest (out @ [line]) changed
      else if is_changed line then
        (let out = out @ [line];
             changed = changed + 1
         in if changed \<ge> max_changed_lines
            then out @ [''''] @ [truncation_marker max_changed_lines]
            else simplify_loop max_changed_lines rest out changed)
      else simplify_loop max_changed_lines rest out changed)"

definition simplify_lines :: "string \<Rightarrow> int \<Rightarrow> string list" where
  "simplify_lines diff_text max_changed_lines =
     simplify_loop max_changed_lines (splitlines diff_text) [] 0"

definition simplify_diff_for_local :: "string \<Rightarrow> int \<Rightarrow> string" where
  "simplify_diff_for_local diff_text max_changed_lines =
     join_nl (simplify_lines diff_text max_changed_lines)"

section \<open>The cost estimator\<close>

text \<open>
  The values read from the usage mapping and the pricing file are JSON values. A token
  count is an integer, or a value \<open>int(...)\<close> rejects; a price is a number, taken here
  as a real (the source computes with floats).
\<close>

datatype py_error = TypeError | KeyError string | RuntimeError

datatype jvalue = JInt int | JNotInt

type_synonym usage = "string \<rightharpoonup> jvalue"

text \<open>A pricing entry is a JSON object: an association list, false in a condition when empty.\<close>

type_synonym pricing_entry = "(string \<times> real) list"

type_synonym pricing_table = "string \<rightharpoonup> pricing_entry"

text \<open>\<open>int(usage.get(key, default))\<close>.\<close>

definition usage_int :: "usage \<Rightarrow> string \<Rightarrow> int \<Rightarrow> py_error + int" where
  "usage_int usage key dflt =
     (case usage key of
        None \<Rightarrow> Inr dflt
      | Some (JInt i) \<Rightarrow> Inr i
      | Some JNotInt \<Rightarrow> Inl TypeError)"

text \<open>\<open>pricing[key]\<close>.\<close>

definition price :: "pricing_entry \<Rightarrow> string \<Rightarrow> py_error + real" where
  "price pricing key =
     (case map_of pricing key of None \<Rightarrow> Inl (KeyError key) | Some p \<Rightarrow> Inr p)"

text \<open>
  \<open>estimate_cost_usd\<close>, with the module global \<open>OPENAI_API_PRICING_PER_1M\<close> as first
  argument. \<open>Inl\<close> is an exception raised, \<open>Inr None\<close> the return value \<open>None\<close>.
\<close>

definition estimate_cost_usd ::
  "pricing_table \<Rightarrow> string \<Rightarrow> usage \<Rightarrow> py_error + (int \<times> int \<times> int \<times> real) option" where
  "estimate_cost_usd OPENAI_API_PRICING_PER_1M model usage =
     (case OPENAI_API_PRICING_PER_1M model of
        None \<Rightarrow> Inr None
      | Some pricing \<Rightarrow>
          if pricing = [] then Inr None
          else
            (case usage_int usage ''prompt_tokens'' 0 of
               Inl e \<Rightarrow> Inl e
             | Inr pt \<Rightarrow>
                 (case usage_int usage ''completion_tokens'' 0 of
                    Inl e \<Rightarrow> Inl e
                  | Inr ct \<Rightarrow>
                      (case usage_int usage ''total_tokens'' (pt + ct) of
                         Inl e \<Rightarrow> Inl e
                       | Inr tt \<Rightarrow>
                           (case price pricing ''input'' of
                              Inl e \<Rightarrow> Inl e
                            | Inr pin \<Rightarrow>
                                (case price pricing ''output'' of
                                   Inl e \<Rightarrow> Inl e
                                 | Inr pout \<Rightarrow>
                                     Inr (Some (pt, ct, tt,
                                       (real_of_int pt / 1000000) * pin
                                         + (real_of_int ct / 1000000) * pout))))))))"

section \<open>The message post-processor\<close>

text \<open>
  The loop \<open>for i, line in enumerate(lines): if line.strip(): ...; break\<close>: the first line
  that is not blank, with its index, counted from \<open>i\<close>.
\<close>

fun first_nonblank :: "string list \<Rightarrow> nat \<Rightarrow> (nat \<times> string) option" where
  "first_nonblank [] i = None"
| "first_nonblank (line # lns) i =
     (if strip line \<noteq> [] then Some (i, line) else first_nonblank lns (Suc i))"

text \<open>
  The \<open>while\<close> loop of \<open>ensure_topic_line\<close> from index \<open>j\<close>: \<open>True\<close> when it returns
  from inside (a Topic line was found), \<open>False\<close> when it runs out.
\<close>

function topic_scan :: "string list \<Rightarrow> nat \<Rightarrow> bool" where
  "topic_scan lines j =
     (if j < length lines \<and> strip (lines ! j) \<noteq> []
      then (if startswith (lower (strip (lines ! j))) ''topic:'' then True
            else topic_scan lines (j + 1))
      else False)"
  by pat_completeness auto
termination
  by (relation "measure (\<lambda>(lines, j). length lines - j)") auto

declare topic_scan.simps [simp del]

definition ensure_topic_line :: "string \<Rightarrow> string \<Rightarrow> string" where
  "ensure_topic_line msg manual_topic =
     (let manual_topic = strip manual_topic
      in if manual_topic = [] then strip msg
         else
           (let lines = splitlines msg
            in if lines = [] then strip msg
               else
                 (case first_nonblank lines 0 of
                    None \<Rightarrow> strip msg
                  | Some (subject_idx, line) \<Rightarrow>
                      if topic_scan lines (subject_idx + 1) then strip msg
                      else
                        (let new_lines = take (subject_idx + 1) lines
                               @ [''Topic: '' @ manual_topic]
                               @ drop (subject_idx + 1) lines
                         in strip (join_nl new_lines)))))"

text \<open>
  The subject/body split in \<open>main\<close> (after the user accepted the message). The result
  is \<open>Inl 1\<close> for \<open>sys.exit(1)\<close> after the message "Empty commit subject from model
  output", and otherwise the pair \<open>(subject, body)\<close>.
\<close>

definition split_message :: "string \<Rightarrow> int + (string \<times> string)" where
  "split_message msg =
     (let lines = splitlines msg;
          found = first_nonblank lines 0;
          subject = (case found of None \<Rightarrow> [] | Some (i, line) \<Rightarrow> line)
      in if strip subject = [] then Inl 1
         else
           (let body_lines = (case found of None \<Rightarrow> [] | Some (i, line) \<Rightarrow> drop (i + 1) lines);
                body_lines = (if body_lines \<noteq> [] \<and> strip (hd body_lines) = []
                              then tl body_lines else body_lines);
                body = rstrip (join_nl body_lines)
            in Inr (subject, body)))"

section \<open>The command\<close>

text \<open>
  Everything \<open>main\<close> reads from outside is a field of the environment: the parsed
  arguments, the configuration globals, the answers of git, of the two backends and of
  the user. \<open>build_prompt\<close> is a field too, since its template comes from the file
  \<open>prompt.txt\<close> when that exists.
\<close>

record env =
  arg_command :: "string option"
  arg_local :: bool
  arg_api :: bool
  arg_manual_message :: string
  DEFAULT_BACKEND :: string
  MAX_DIFF_LINES :: int
  MAX_LOCAL_CHANGED_LINES :: int
  API_MODEL :: string
  API_KEY_ENV_NAME :: string
  LOCAL_MODEL :: string
  PRICING :: pricing_table
  staged_diff :: string
  staged_files :: "string list"
  build_prompt :: "string list \<Rightarrow> string \<Rightarrow> string \<Rightarrow> string"
  api_key :: "string option"
  call_api :: "string \<Rightarrow> string \<Rightarrow> py_error + (string \<times> usage)"
  generate_commit_message_local :: "string \<Rightarrow> string \<Rightarrow> py_error + (string \<times> usage)"
  user_input :: string
  git_commit :: "string list \<Rightarrow> int"

text \<open>
  What \<open>main\<close> does to the outside, in order: error messages, calls of a backend (with
  the prompt) and the git commit (with its command line). The informational console
  output, which contains elapsed times, is left out.
\<close>

datatype event =
    PrintHelp
  | Error string
  | CallApi string string
  | CallLocal string string
  | GitCommit "string list"

text \<open>How the process ends: an exit code, or an exception nobody catches.\<close>

datatype outcome = Exit int | Uncaught py_error

definition use_local_of :: "env \<Rightarrow> bool" where
  "use_local_of e =
     (if arg_local e then True
      else if arg_api e then False
      else DEFAULT_BACKEND e = ''local'')"

definition missing_key_error :: "env \<Rightarrow> event" where
  "missing_key_error e =
     Error (''Environment variable '' @ [CHR 0x27] @ API_KEY_ENV_NAME e @ [CHR 0x27]
       @ '' not set. Please set it or change 'api_key_env_name' in config.txt'')"

text \<open>The last part of \<open>main\<close>, from the question to the user on.\<close>

definition confirm_and_commit :: "env \<Rightarrow> string \<Rightarrow> event list \<times> outcome" where
  "confirm_and_commit e msg =
     (let choice = lower (strip (user_input e))
      in if choice = ''y'' \<or> choice = ''e'' then
           (case split_message msg of
              Inl code \<Rightarrow> ([Error ''Empty commit subject from model output''], Exit code)
            | Inr (subject, body) \<Rightarrow>
                (let cmd = [''git'', ''commit'', ''-m'', subject];
                     cmd = (if strip body \<noteq> [] then cmd @ [''-m'', body] else cmd);
                     cmd = (if choice = ''e'' then cmd @ [''--edit'', ''--cleanup=strip''] else cmd);
                     returncode = git_commit e cmd
                 in if returncode \<noteq> 0
                    then ([GitCommit cmd,
                           Error (''git commit failed with code '' @ str_of_int returncode)],
                          Exit returncode)
                    else ([GitCommit cmd], Exit 0)))
         else ([], Exit 0))"

text \<open>The part of \<open>main\<close> after the backend answered with \<open>msg\<close> and \<open>usage\<close>.\<close>

definition after_backend :: "env \<Rightarrow> bool \<Rightarrow> string \<Rightarrow> usage \<Rightarrow> event list \<times> outcome" where
  "after_backend e use_local msg usage =
     (let msg = ensure_topic_line msg (arg_manual_message e)
      in if \<not> use_local then
           (case estimate_cost_usd (PRICING e) (API_MODEL e) usage of
              Inl err \<Rightarrow> ([], Uncaught err)
            | Inr est \<Rightarrow> confirm_and_commit e msg)
         else confirm_and_commit e msg)"

definition main :: "env \<Rightarrow> event list \<times> outcome" where
  "main e =
     (if arg_command e \<noteq> Some ''commit'' then ([PrintHelp], Exit 0)
      else
        (let use_local = use_local_of e;
             diff = staged_diff e;
             files = staged_files e
         in if strip diff = [] then ([Error ''No staged changes. Run: git add <files>''], Exit 1)
            else
              (let (diff_used, truncated, total, kept) = truncate_diff (MAX_DIFF_LINES e) diff;
                   diff_for_prompt =
                     (if use_local
                      then simplify_diff_for_local diff (MAX_LOCAL_CHANGED_LINES e)
                      else diff_used);
                   prompt = build_prompt e files diff_for_prompt (arg_manual_message e)
               in if use_local then
                    (case generate_commit_message_local e prompt (LOCAL_MODEL e) of
                       Inl err \<Rightarrow> ([CallLocal prompt (LOCAL_MODEL e)], Uncaught err)
                     | Inr (msg, usage) \<Rightarrow>
                         (let (evs, out) = after_backend e use_local msg usage
                          in (CallLocal prompt (LOCAL_MODEL e) # evs, out)))
                  else
                    (case api_key e of
                       None \<Rightarrow> ([missing_key_error e], Exit 1)
                     | Some k \<Rightarrow>
                         if k = [] then ([missing_key_error e], Exit 1)
                         else
                           (case call_api e k prompt of
                              Inl err \<Rightarrow> ([CallApi k prompt], Uncaught err)
                            | Inr (msg, usage) \<Rightarrow>
                                (let (evs, out) = after_backend e use_local msg usage
                                 in (CallApi k prompt # evs, out)))))))"

text \<open>The events that are a call of a backend.\<close>

fun is_backend_call :: "event \<Rightarrow> bool" where
  "is_backend_call (CallApi k p) = True"
| "is_backend_call (CallLocal p m) = True"
| "is_backend_call _ = False"

section \<open>Notions used in the statements\<close>

abbreviation blank :: "string \<Rightarrow> bool" where
  "blank l \<equiv> strip l = []"

definition no_break :: "string \<Rightarrow> bool" where
  "no_break l \<longleftrightarrow> (\<forall>c\<in>set l. \<not> is_linebreak c)"

definition is_header :: "string \<Rightarrow> bool" where
  "is_header line \<longleftrightarrow> is_file_header line \<or> is_path_header line \<or> is_hunk_header line"

definition kept_line :: "string \<Rightarrow> bool" where
  "kept_line line \<longleftrightarrow> is_header line \<or> is_changed line"

definition digest_invariant :: "string \<times> bool \<times> int \<times> int \<Rightarrow> bool" where
  "digest_invariant d =
     (case d of (text, truncated, totalLines, keptLines) \<Rightarrow>
        keptLines \<le> totalLines \<and> truncated = (keptLines < totalLines))"

abbreviation is_topic_line :: "string \<Rightarrow> bool" where
  "is_topic_line l \<equiv> startswith (lower (strip l)) ''topic:''"

definition topic_in_block :: "string list \<Rightarrow> bool" where
  "topic_in_block rest \<longleftrightarrow> (\<exists>l\<in>set (takeWhile (\<lambda>l. \<not> blank l) rest). is_topic_line l)"

definition has_topic :: "string list \<Rightarrow> bool" where
  "has_topic ls = (case dropWhile blank ls of [] \<Rightarrow> False | s # rest \<Rightarrow> topic_in_block rest)"

text \<open>
  Two lists of lines that differ only at their end: in blank lines there, and in the
  trailing whitespace of the last line that is not blank.
\<close>

inductive tail_eq :: "string list \<Rightarrow> string list \<Rightarrow> bool" where
  blanks: "\<forall>l\<in>set A. blank l \<Longrightarrow> \<forall>l\<in>set B. blank l \<Longrightarrow> tail_eq A B"
| last: "rstrip a = rstrip b \<Longrightarrow> \<forall>l\<in>set A. blank l \<Longrightarrow> \<forall>l\<in>set B. blank l \<Longrightarrow>
           tail_eq (a # A) (b # B)"
| cons: "tail_eq A B \<Longrightarrow> tail_eq (l # A) (l # B)"

section \<open>Lines and whitespace\<close>

lemma linebreak_is_space: "is_linebreak c \<Longrightarrow> is_space c"
  by (auto simp: is_linebreak_def is_space_def)

lemma NL_linebreak: "is_linebreak NL"
  by (simp add: is_linebreak_def NL_def)

lemma NL_not_CR: "NL \<noteq> CR"
  by (simp add: NL_def CR_def)

lemma skip_lf_NL: "skip_lf NL s = s"
  by (simp add: skip_lf_def NL_not_CR)

lemma set_skip_lf: "set (skip_lf c cs) \<subseteq> set cs"
  by (auto simp: skip_lf_def dest: list.set_sel(2))

lemma set_cons_first: "l \<in> set (cons_first c ls) \<Longrightarrow> (\<exists>l'. l = c # l' \<and> (l' = [] \<and> ls = [] \<or> l' \<in> set ls)) \<or> l \<in> set ls"
  by (cases ls) auto

lemma splitlines_chars: "l \<in> set (splitlines s) \<Longrightarrow> set l \<subseteq> set s"
proof (induction s arbitrary: l rule: splitlines.induct)
  case 1
  then show ?case by simp
next
  case (2 c cs)
  show ?case
  proof (cases "is_linebreak c")
    case True
    with 2 set_skip_lf[of c cs] show ?thesis by auto
  next
    case False
    with "2.prems" have "l \<in> set (cons_first c (splitlines cs))" by simp
    from set_cons_first[OF this] "2.IH"(2)[OF False] show ?thesis by fastforce
  qed
qed

lemma splitlines_no_break: "l \<in> set (splitlines s) \<Longrightarrow> no_break l"
proof (induction s arbitrary: l rule: splitlines.induct)
  case 1
  then show ?case by simp
next
  case (2 c cs)
  show ?case
  proof (cases "is_linebreak c")
    case True
    with 2 show ?thesis by (auto simp: no_break_def)
  next
    case False
    with "2.prems" have "l \<in> set (cons_first c (splitlines cs))" by simp
    from set_cons_first[OF this] "2.IH"(2)[OF False] False show ?thesis
      by (auto simp: no_break_def)
  qed
qed

lemma splitlines_clean: "no_break l \<Longrightarrow> splitlines l = (if l = [] then [] else [l])"
  by (induction l) (auto simp: no_break_def)

lemma splitlines_clean_NL: "no_break l \<Longrightarrow> splitlines (l @ NL # s) = l # splitlines s"
  by (induction l) (auto simp: no_break_def NL_linebreak skip_lf_NL)

lemma splitlines_join_nl:
  "\<forall>l\<in>set ls. no_break l \<Longrightarrow> ls \<noteq> [] \<Longrightarrow> last ls \<noteq> [] \<Longrightarrow> splitlines (join_nl ls) = ls"
proof (induction ls rule: join_nl.induct)
  case 1
  then show ?case by simp
next
  case (2 x)
  then show ?case by (simp add: splitlines_clean)
next
  case (3 x y ys)
  then show ?case by (simp add: splitlines_clean_NL)
qed

lemma dropWhile_all: "(\<forall>x\<in>set (dropWhile P xs). P x) \<longleftrightarrow> (\<forall>x\<in>set xs. P x)"
  by (induction xs) auto

lemma strip_empty_iff: "strip s = [] \<longleftrightarrow> (\<forall>c\<in>set s. is_space c)"
  by (simp add: strip_def rstrip_def lstrip_def dropWhile_eq_Nil_conv dropWhile_all)

lemma rstrip_empty_iff: "rstrip s = [] \<longleftrightarrow> (\<forall>c\<in>set s. is_space c)"
  by (auto simp: rstrip_def dropWhile_eq_Nil_conv)


section \<open>The loop of the sparse digest\<close>

lemma startswith_hd: "startswith l (c # p) \<Longrightarrow> l \<noteq> [] \<and> hd l = c"
  by (cases l) (auto simp: startswith_def)

lemma startswith_app: "startswith l (p @ q) \<Longrightarrow> startswith l p"
proof -
  assume "startswith l (p @ q)"
  then have "take (length p) (take (length (p @ q)) l) = take (length p) (p @ q)"
    by (simp only: startswith_def)
  then show ?thesis by (simp add: startswith_def min_def)
qed

lemma changed_hd: "is_changed l \<Longrightarrow> l \<noteq> [] \<and> (hd l = CHR ''+'' \<or> hd l = CHR ''-'')"
  unfolding is_changed_def using startswith_hd by blast

lemma file_header_hd: "is_file_header l \<Longrightarrow> l \<noteq> [] \<and> hd l = CHR ''d''"
  unfolding is_file_header_def by (rule startswith_hd)

lemma hunk_header_hd: "is_hunk_header l \<Longrightarrow> l \<noteq> [] \<and> hd l = CHR ''@''"
  unfolding is_hunk_header_def by (rule startswith_hd)

lemma path_header_cases:
  "is_path_header l \<Longrightarrow>
     l \<noteq> [] \<and> (hd l = CHR ''i'' \<or> startswith l ''---'' \<or> startswith l ''+++'')"
proof -
  assume a: "is_path_header l"
  have m: "startswith l ''--- '' \<Longrightarrow> startswith l ''---''"
    using startswith_app[of l "''---''" "'' ''"] by simp
  have p: "startswith l ''+++ '' \<Longrightarrow> startswith l ''+++''"
    using startswith_app[of l "''+++''" "'' ''"] by simp
  from a consider "startswith l ''index ''" | "startswith l ''--- ''" | "startswith l ''+++ ''"
    unfolding is_path_header_def by blast
  then show ?thesis
  proof cases
    case 1
    then show ?thesis using startswith_hd by blast
  next
    case 2
    then show ?thesis using m startswith_hd by blast
  next
    case 3
    then show ?thesis using p startswith_hd by blast
  qed
qed

lemma changed_not_header: "is_changed l \<Longrightarrow> \<not> is_header l"
proof
  assume c: "is_changed l" and h: "is_header l"
  from c have n: "\<not> startswith l ''+++''" "\<not> startswith l ''---''"
    by (simp_all add: is_changed_def)
  from h consider "is_file_header l" | "is_path_header l" | "is_hunk_header l"
    unfolding is_header_def by blast
  then show False
  proof cases
    case 1
    with changed_hd[OF c] file_header_hd[of l] show False by auto
  next
    case 2
    with changed_hd[OF c] path_header_cases[of l] n show False by auto
  next
    case 3
    with changed_hd[OF c] hunk_header_hd[of l] show False by auto
  qed
qed

lemma kept_line_nonempty: "kept_line l \<Longrightarrow> l \<noteq> []"
  unfolding kept_line_def is_header_def
  using changed_hd file_header_hd hunk_header_hd path_header_cases by blast

lemma simplify_loop_step:
  "simplify_loop n (l # rest) out ch =
     (if is_header l then simplify_loop n rest (out @ [l]) ch
      else if is_changed l then
        (if ch + 1 \<ge> n then out @ [l, [], truncation_marker n]
         else simplify_loop n rest (out @ [l]) (ch + 1))
      else simplify_loop n rest out ch)"
  by (simp add: is_header_def Let_def)

lemma simplify_loop_no_break:
  "ch + int (length (filter is_changed ls)) < n \<Longrightarrow>
     simplify_loop n ls out ch = out @ filter kept_line ls"
proof (induction ls arbitrary: out ch)
  case Nil
  then show ?case by simp
next
  case (Cons l ls)
  show ?case
  proof (cases "is_changed l")
    case True
    with Cons.prems have "ch + 1 + int (length (filter is_changed ls)) < n" by simp
    from Cons.IH[OF this] True Cons.prems changed_not_header[OF True] show ?thesis
      by (simp add: simplify_loop_step kept_line_def del: simplify_loop.simps)
  next
    case False
    with Cons.prems have "ch + int (length (filter is_changed ls)) < n" by simp
    from Cons.IH[OF this] False show ?thesis
      by (simp add: simplify_loop_step kept_line_def del: simplify_loop.simps)
  qed
qed

lemma simplify_loop_break:
  "is_changed c \<Longrightarrow> ch + int (length (filter is_changed pre)) < n \<Longrightarrow>
   n \<le> ch + int (length (filter is_changed pre)) + 1 \<Longrightarrow>
     simplify_loop n (pre @ c # post) out ch = out @ filter kept_line pre @ [c, [], truncation_marker n]"
proof (induction pre arbitrary: out ch)
  case Nil
  then show ?case
    using changed_not_header[of c] by (simp add: simplify_loop_step del: simplify_loop.simps)
next
  case (Cons l pre)
  show ?case
  proof (cases "is_changed l")
    case True
    with Cons.prems have a: "ch + 1 + int (length (filter is_changed pre)) < n"
      and b: "n \<le> ch + 1 + int (length (filter is_changed pre)) + 1" by simp_all
    from a have "\<not> n \<le> ch + 1" by simp
    with Cons.IH[OF Cons.prems(1) a b] True changed_not_header[OF True] show ?thesis
      by (simp add: simplify_loop_step kept_line_def del: simplify_loop.simps)
  next
    case False
    with Cons.prems have a: "ch + int (length (filter is_changed pre)) < n"
      and b: "n \<le> ch + int (length (filter is_changed pre)) + 1" by simp_all
    from Cons.IH[OF Cons.prems(1) a b] False show ?thesis
      by (simp add: simplify_loop_step kept_line_def del: simplify_loop.simps)
  qed
qed

lemma filter_count_split:
  "Suc k \<le> length (filter P xs) \<Longrightarrow>
     \<exists>pre c post. xs = pre @ c # post \<and> P c \<and> length (filter P pre) = k"
proof (induction xs arbitrary: k)
  case Nil
  then show ?case by simp
next
  case (Cons x xs)
  show ?case
  proof (cases "P x")
    case False
    with Cons.prems have "Suc k \<le> length (filter P xs)" by simp
    from Cons.IH[OF this] obtain pre c post where
      "xs = pre @ c # post" "P c" "length (filter P pre) = k" by blast
    with False have "x # xs = (x # pre) @ c # post \<and> P c \<and> length (filter P (x # pre)) = k"
      by simp
    then show ?thesis by blast
  next
    case True
    show ?thesis
    proof (cases k)
      case 0
      with True have "x # xs = [] @ x # xs \<and> P x \<and> length (filter P []) = k" by simp
      then show ?thesis by blast
    next
      case (Suc j)
      with True Cons.prems have "Suc j \<le> length (filter P xs)" by simp
      from Cons.IH[OF this] obtain pre c post where
        "xs = pre @ c # post" "P c" "length (filter P pre) = j" by blast
      with True Suc have "x # xs = (x # pre) @ c # post \<and> P c \<and> length (filter P (x # pre)) = k"
        by simp
      then show ?thesis by blast
    qed
  qed
qed


lemma digit_char_no_break: "d < 10 \<Longrightarrow> \<not> is_linebreak (digit_char d)"
proof -
  assume "d < 10"
  then have "digit_char d \<in> set ''0123456789''"
    unfolding digit_char_def by (intro nth_mem) simp
  moreover have "\<forall>c\<in>set ''0123456789''. \<not> is_linebreak c"
    by (simp add: is_linebreak_def)
  ultimately show ?thesis by blast
qed

lemma digits_no_break: "no_break (digits n)"
proof (induction n rule: digits.induct)
  case (1 n)
  show ?case
  proof (cases "n < 10")
    case True
    then show ?thesis
      by (subst digits.simps) (simp add: no_break_def digit_char_no_break)
  next
    case False
    with 1 have "no_break (digits (n div 10))" by simp
    moreover have "\<not> is_linebreak (digit_char (n mod 10))"
      by (rule digit_char_no_break) simp
    ultimately show ?thesis using False
      by (subst digits.simps) (simp add: no_break_def)
  qed
qed

lemma digits_nonempty: "digits n \<noteq> []"
  by (subst digits.simps) simp

lemma str_of_int_no_break: "no_break (str_of_int i)"
proof -
  have "\<not> is_linebreak CHR ''-''" by (simp add: is_linebreak_def)
  with digits_no_break[of "nat i"] digits_no_break[of "nat (- i)"] show ?thesis
    by (simp add: str_of_int_def no_break_def)
qed

lemma no_break_append: "no_break (a @ b) \<longleftrightarrow> no_break a \<and> no_break b"
  by (auto simp: no_break_def)

lemma truncation_marker_no_break: "no_break (truncation_marker n)"
proof -
  have "no_break ''[... truncated after ''" "no_break '' changed lines ...]''"
    by (simp_all add: no_break_def is_linebreak_def)
  then show ?thesis
    unfolding truncation_marker_def by (simp only: no_break_append str_of_int_no_break)
qed

lemma truncation_marker_nonempty: "truncation_marker n \<noteq> []"
  by (simp add: truncation_marker_def)

lemma simplify_loop_shape:
  "simplify_loop n ls out ch = out @ filter kept_line ls \<or>
   (\<exists>pre c post. ls = pre @ c # post \<and> is_changed c \<and>
      simplify_loop n ls out ch = out @ filter kept_line pre @ [c, [], truncation_marker n])"
proof (induction ls arbitrary: out ch)
  case Nil
  then show ?case by simp
next
  case (Cons l ls)
  consider (hdr) "is_header l" | (chg) "\<not> is_header l" "is_changed l" "n \<le> ch + 1"
    | (chg2) "\<not> is_header l" "is_changed l" "\<not> n \<le> ch + 1"
    | (skip) "\<not> is_header l" "\<not> is_changed l" by blast
  then show ?case
  proof cases
    case hdr
    then have k: "kept_line l" by (simp add: kept_line_def)
    from hdr have e: "simplify_loop n (l # ls) out ch = simplify_loop n ls (out @ [l]) ch"
      by (simp add: simplify_loop_step del: simplify_loop.simps)
    from Cons.IH[of "out @ [l]" ch] show ?thesis
    proof
      assume "simplify_loop n ls (out @ [l]) ch = (out @ [l]) @ filter kept_line ls"
      with e k show ?thesis by simp
    next
      assume "\<exists>pre c post. ls = pre @ c # post \<and> is_changed c \<and>
        simplify_loop n ls (out @ [l]) ch = (out @ [l]) @ filter kept_line pre @ [c, [], truncation_marker n]"
      then obtain pre c post where p: "ls = pre @ c # post" "is_changed c"
        "simplify_loop n ls (out @ [l]) ch = (out @ [l]) @ filter kept_line pre @ [c, [], truncation_marker n]"
        by blast
      with e k have "l # ls = (l # pre) @ c # post \<and> is_changed c \<and>
        simplify_loop n (l # ls) out ch = out @ filter kept_line (l # pre) @ [c, [], truncation_marker n]"
        by simp
      then show ?thesis by blast
    qed
  next
    case chg
    then have "l # ls = [] @ l # ls \<and> is_changed l \<and>
        simplify_loop n (l # ls) out ch = out @ filter kept_line [] @ [l, [], truncation_marker n]"
      by (simp add: simplify_loop_step del: simplify_loop.simps)
    then show ?thesis by blast
  next
    case chg2
    then have k: "kept_line l" by (simp add: kept_line_def)
    from chg2 have e: "simplify_loop n (l # ls) out ch = simplify_loop n ls (out @ [l]) (ch + 1)"
      by (simp add: simplify_loop_step del: simplify_loop.simps)
    from Cons.IH[of "out @ [l]" "ch + 1"] show ?thesis
    proof
      assume "simplify_loop n ls (out @ [l]) (ch + 1) = (out @ [l]) @ filter kept_line ls"
      with e k show ?thesis by simp
    next
      assume "\<exists>pre c post. ls = pre @ c # post \<and> is_changed c \<and>
        simplify_loop n ls (out @ [l]) (ch + 1) = (out @ [l]) @ filter kept_line pre @ [c, [], truncation_marker n]"
      then obtain pre c post where p: "ls = pre @ c # post" "is_changed c"
        "simplify_loop n ls (out @ [l]) (ch + 1) = (out @ [l]) @ filter kept_line pre @ [c, [], truncation_marker n]"
        by blast
      with e k have "l # ls = (l # pre) @ c # post \<and> is_changed c \<and>
        simplify_loop n (l # ls) out ch = out @ filter kept_line (l # pre) @ [c, [], truncation_marker n]"
        by simp
      then show ?thesis by blast
    qed
  next
    case skip
    then have k: "\<not> kept_line l" by (simp add: kept_line_def)
    from skip have e: "simplify_loop n (l # ls) out ch = simplify_loop n ls out ch"
      by (simp add: simplify_loop_step del: simplify_loop.simps)
    from Cons.IH[of out ch] show ?thesis
    proof
      assume "simplify_loop n ls out ch = out @ filter kept_line ls"
      with e k show ?thesis by simp
    next
      assume "\<exists>pre c post. ls = pre @ c # post \<and> is_changed c \<and>
        simplify_loop n ls out ch = out @ filter kept_line pre @ [c, [], truncation_marker n]"
      then obtain pre c post where p: "ls = pre @ c # post" "is_changed c"
        "simplify_loop n ls out ch = out @ filter kept_line pre @ [c, [], truncation_marker n]"
        by blast
      with e k have "l # ls = (l # pre) @ c # post \<and> is_changed c \<and>
        simplify_loop n (l # ls) out ch = out @ filter kept_line (l # pre) @ [c, [], truncation_marker n]"
        by simp
      then show ?thesis by blast
    qed
  qed
qed

lemma no_break_nil: "no_break []"
  by (simp add: no_break_def)

lemma simplify_output_lines:
  "splitlines (simplify_diff_for_local d n) = simplify_lines d n"
proof -
  let ?ls = "splitlines d"
  let ?out = "simplify_lines d n"
  have nb: "\<forall>l\<in>set (filter kept_line pre). no_break l" if "set pre \<subseteq> set ?ls" for pre
    using that splitlines_no_break by auto
  from simplify_loop_shape[of n ?ls "[]" 0]
  consider (a) "?out = filter kept_line ?ls"
    | (b) pre c post where "?ls = pre @ c # post" "is_changed c"
        "?out = filter kept_line pre @ [c, [], truncation_marker n]"
    unfolding simplify_lines_def by auto
  then have "?out = [] \<or> ((\<forall>l\<in>set ?out. no_break l) \<and> ?out \<noteq> [] \<and> last ?out \<noteq> [])"
  proof cases
    case a
    show ?thesis
    proof (cases "?out = []")
      case True
      then show ?thesis by simp
    next
      case False
      then have "last ?out \<in> set (filter kept_line ?ls)" using a last_in_set by metis
      then have "last ?out \<noteq> []" using kept_line_nonempty by auto
      with a nb[of ?ls] False show ?thesis by simp
    qed
  next
    case b
    from b(1) have "set pre \<subseteq> set ?ls" "c \<in> set ?ls" by auto
    with nb[of pre] splitlines_no_break[of c d] b(3) show ?thesis
      by (simp add: no_break_nil truncation_marker_no_break truncation_marker_nonempty)
  qed
  then show ?thesis
    unfolding simplify_diff_for_local_def
    using splitlines_join_nl[of ?out] by auto
qed

lemma header_hd:
  "is_header l \<Longrightarrow>
     hd l = CHR ''d'' \<or> hd l = CHR ''i'' \<or> hd l = CHR ''-'' \<or> hd l = CHR ''+'' \<or> hd l = CHR ''@''"
proof -
  assume "is_header l"
  then consider "is_file_header l" | "is_path_header l" | "is_hunk_header l"
    unfolding is_header_def by blast
  then show ?thesis
  proof cases
    case 1
    then show ?thesis using file_header_hd by blast
  next
    case 2
    from path_header_cases[OF 2] startswith_hd[of l "CHR ''-''" "''--''"]
      startswith_hd[of l "CHR ''+''" "''++''"]
    show ?thesis by auto
  next
    case 3
    then show ?thesis using hunk_header_hd by blast
  qed
qed

lemma marker_hd: "hd (truncation_marker n) = CHR ''[''"
  by (simp add: truncation_marker_def)

lemma marker_not_header: "\<not> is_header (truncation_marker n)"
  using header_hd[of "truncation_marker n"] by (auto simp: marker_hd)

lemma marker_not_changed: "\<not> is_changed (truncation_marker n)"
  using changed_hd[of "truncation_marker n"] by (auto simp: marker_hd)

lemma nil_not_kept: "\<not> is_header []" "\<not> is_changed []"
  using kept_line_nonempty[of "[]"] by (auto simp: kept_line_def)

lemma filter_header_kept: "filter is_header (filter kept_line xs) = filter is_header xs"
  by (induction xs) (auto simp: kept_line_def)

lemma filter_changed_kept: "filter is_changed (filter kept_line xs) = filter is_changed xs"
  by (induction xs) (auto simp: kept_line_def)

lemma take_lines_no_break: "\<forall>l\<in>set (take k (splitlines d)). no_break l"
  using splitlines_no_break by (auto dest: in_set_takeD)

lemma truncate_marker_no_break:
  "no_break (''[... truncated '' @ str_of_int k @ '' diff lines ...]'')"
proof -
  have "no_break ''[... truncated ''" "no_break '' diff lines ...]''"
    by (simp_all add: no_break_def is_linebreak_def)
  then show ?thesis
    by (simp only: no_break_append str_of_int_no_break)
qed

section \<open>The subject line and the Topic line\<close>

lemma first_nonblank_pre:
  "\<forall>p\<in>set pre. blank p \<Longrightarrow> \<not> blank s \<Longrightarrow>
     first_nonblank (pre @ s # rest) i = Some (i + length pre, s)"
  by (induction pre arbitrary: i) auto

lemma first_nonblank_None: "\<forall>l\<in>set ls. blank l \<Longrightarrow> first_nonblank ls i = None"
  by (induction ls arbitrary: i) auto

lemma blank_split:
  "(\<forall>l\<in>set ls. blank l) \<or>
   (\<exists>pre s rest. ls = pre @ s # rest \<and> (\<forall>p\<in>set pre. blank p) \<and> \<not> blank s)"
proof (cases "\<forall>l\<in>set ls. blank l")
  case True
  then show ?thesis by simp
next
  case False
  then have "dropWhile blank ls \<noteq> []" by (simp add: dropWhile_eq_Nil_conv)
  then obtain s rest where d: "dropWhile blank ls = s # rest" by (cases "dropWhile blank ls") auto
  then have "\<not> blank s" using hd_dropWhile[of blank ls] by auto
  moreover have "ls = takeWhile blank ls @ s # rest" using d takeWhile_dropWhile_id[of blank ls] by simp
  moreover have "\<forall>p\<in>set (takeWhile blank ls). blank p" by (auto dest: set_takeWhileD)
  ultimately show ?thesis by blast
qed

lemma topic_scan_eq: "topic_scan ls j = topic_in_block (drop j ls)"
proof (induction ls j rule: topic_scan.induct)
  case (1 lines j)
  show ?case
  proof (cases "j < length lines")
    case False
    then show ?thesis
      by (subst topic_scan.simps) (simp add: topic_in_block_def)
  next
    case True
    then have d: "drop j lines = lines ! j # drop (Suc j) lines"
      by (simp add: Cons_nth_drop_Suc)
    show ?thesis
    proof (cases "blank (lines ! j)")
      case True
      then show ?thesis
        by (subst topic_scan.simps) (simp add: topic_in_block_def d)
    next
      case nb: False
      show ?thesis
      proof (cases "is_topic_line (lines ! j)")
        case True
        with nb \<open>j < length lines\<close> show ?thesis
          by (subst topic_scan.simps) (simp add: topic_in_block_def d)
      next
        case False
        with nb \<open>j < length lines\<close> "1.IH" have "topic_scan lines (j + 1) = topic_in_block (drop (j + 1) lines)"
          by simp
        with False nb \<open>j < length lines\<close> show ?thesis
          by (subst topic_scan.simps) (simp add: topic_in_block_def d)
      qed
    qed
  qed
qed

lemma ensure_blank_topic: "blank t \<Longrightarrow> ensure_topic_line msg t = strip msg"
  by (simp add: ensure_topic_line_def)

lemma ensure_no_subject:
  "\<forall>l\<in>set (splitlines msg). blank l \<Longrightarrow> ensure_topic_line msg t = strip msg"
  by (simp add: ensure_topic_line_def Let_def first_nonblank_None)

lemma ensure_decomp:
  assumes "splitlines msg = pre @ s # rest" "\<forall>p\<in>set pre. blank p" "\<not> blank s"
  shows "ensure_topic_line msg t =
     (if blank t \<or> topic_in_block rest then strip msg
      else strip (join_nl (pre @ [s, ''Topic: '' @ strip t] @ rest)))"
proof -
  have f: "first_nonblank (splitlines msg) 0 = Some (length pre, s)"
    using first_nonblank_pre[OF assms(2,3), of rest 0] assms(1) by simp
  have t: "take (length pre + 1) (splitlines msg) = pre @ [s]"
    and d: "drop (length pre + 1) (splitlines msg) = rest"
    using assms(1) by simp_all
  have n: "splitlines msg \<noteq> []" using assms(1) by simp
  show ?thesis
    unfolding ensure_topic_line_def Let_def f using t d n
    by (simp add: topic_scan_eq)
qed

section \<open>Stripping a message does not change the search for the Topic line\<close>

lemma dropWhile_snoc:
  "dropWhile P (xs @ [x]) = (if \<forall>y\<in>set xs. P y then dropWhile P [x] else dropWhile P xs @ [x])"
  by (induction xs) auto

lemma dropWhile_rev_commute:
  "rev (dropWhile P (rev (dropWhile P xs))) = dropWhile P (rev (dropWhile P (rev xs)))"
proof (induction xs)
  case Nil
  then show ?case by simp
next
  case (Cons x xs)
  show ?case
  proof (cases "P x")
    case True
    show ?thesis
    proof (cases "\<forall>y\<in>set xs. P y")
      case all: True
      with True show ?thesis
        by (auto simp: dropWhile_snoc dest: set_dropWhileD)
    next
      case False
      with True Cons.IH show ?thesis by (auto simp: dropWhile_snoc)
    qed
  next
    case False
    have "dropWhile P (rev xs @ [x]) = dropWhile P (rev xs) @ [x]"
      using False by (simp add: dropWhile_snoc)
    with False show ?thesis by simp
  qed
qed

lemma strip_commute: "strip s = lstrip (rstrip s)"
  unfolding strip_def lstrip_def rstrip_def by (rule dropWhile_rev_commute)

lemma rstrip_eq_strip_eq: "rstrip a = rstrip b \<Longrightarrow> strip a = strip b"
  by (simp add: strip_commute)

lemma blank_rstrip: "blank s \<longleftrightarrow> rstrip s = []"
  by (simp add: strip_empty_iff rstrip_empty_iff)

lemma rstrip_Cons:
  "rstrip (c # l) = (if rstrip l = [] then (if is_space c then [] else [c]) else c # rstrip l)"
proof (cases "\<forall>y\<in>set l. is_space y")
  case True
  then have "rstrip l = []" by (simp add: rstrip_empty_iff)
  with True show ?thesis by (simp add: rstrip_def dropWhile_snoc)
next
  case False
  then have "rstrip l \<noteq> []" by (simp add: rstrip_empty_iff)
  with False show ?thesis by (simp add: rstrip_def dropWhile_snoc)
qed

lemma strip_space_Cons: "is_space w \<Longrightarrow> strip (w # l) = strip l"
  by (simp add: strip_def lstrip_def)

lemma rstrip_split: "s = rstrip s @ rev (takeWhile is_space (rev s))"
proof -
  have "rev (takeWhile is_space (rev s) @ dropWhile is_space (rev s)) = rev (rev s)"
    by (simp only: takeWhile_dropWhile_id)
  then have "rev (dropWhile is_space (rev s)) @ rev (takeWhile is_space (rev s)) = s"
    by (simp only: rev_append rev_rev_ident)
  then show ?thesis unfolding rstrip_def by (rule sym)
qed

lemma strip_split:
  "\<exists>w1 w2. s = w1 @ strip s @ w2 \<and> (\<forall>c\<in>set w1. is_space c) \<and> (\<forall>c\<in>set w2. is_space c)"
proof -
  let ?w1 = "takeWhile is_space s"
  let ?w2 = "rev (takeWhile is_space (rev (lstrip s)))"
  have "s = ?w1 @ lstrip s" by (simp add: lstrip_def)
  moreover have "lstrip s = strip s @ ?w2"
    unfolding strip_def by (rule rstrip_split)
  ultimately have "s = ?w1 @ strip s @ ?w2" by simp
  moreover have "\<forall>c\<in>set ?w1. is_space c" by (auto dest: set_takeWhileD)
  moreover have "\<forall>c\<in>set ?w2. is_space c" by (auto dest: set_takeWhileD)
  ultimately show ?thesis by blast
qed

lemma lstrip_id: "s = [] \<or> \<not> is_space (hd s) \<Longrightarrow> lstrip s = s"
  by (cases s) (auto simp: lstrip_def)

lemma rstrip_id: "s = [] \<or> \<not> is_space (last s) \<Longrightarrow> rstrip s = s"
proof (cases "s = []")
  case True
  then show ?thesis by (simp add: rstrip_def)
next
  case False
  assume "s = [] \<or> \<not> is_space (last s)"
  with False have "\<not> is_space (hd (rev s))" by (simp add: hd_rev)
  with False have "dropWhile is_space (rev s) = rev s" by (cases "rev s") auto
  then show ?thesis by (simp add: rstrip_def)
qed

lemma rstrip_last: "rstrip s = [] \<or> \<not> is_space (last (rstrip s))"
proof (cases "rstrip s = []")
  case True
  then show ?thesis by simp
next
  case False
  then have d: "dropWhile is_space (rev s) \<noteq> []" by (simp add: rstrip_def)
  then have "\<not> is_space (hd (dropWhile is_space (rev s)))" by (rule hd_dropWhile)
  with d show ?thesis by (simp add: rstrip_def last_rev)
qed

lemma lstrip_hd: "lstrip s = [] \<or> \<not> is_space (hd (lstrip s))"
  using hd_dropWhile[of is_space s] by (auto simp: lstrip_def)

lemma rstrip_idem: "rstrip (rstrip s) = rstrip s"
  using rstrip_last[of s] by (intro rstrip_id)

lemma lstrip_idem: "lstrip (lstrip s) = lstrip s"
  using lstrip_hd[of s] by (intro lstrip_id)

lemma strip_idem: "strip (strip s) = strip s"
proof -
  have "strip (strip s) = rstrip (lstrip (lstrip (rstrip s)))"
    by (simp add: strip_def strip_commute[symmetric]) 
  also have "\<dots> = rstrip (lstrip (rstrip s))" by (simp only: lstrip_idem)
  also have "\<dots> = rstrip (rstrip (lstrip s))"
    using strip_commute[of s] by (simp add: strip_def)
  also have "\<dots> = strip s" by (simp add: rstrip_idem strip_def)
  finally show ?thesis .
qed

lemma lines_of_space:
  "\<forall>c\<in>set ws. is_space c \<Longrightarrow> \<forall>l\<in>set (splitlines ws). blank l"
  using splitlines_chars by (fastforce simp: strip_empty_iff)

lemma rstrip_Nil: "rstrip [] = []"
  by (simp add: rstrip_def)

lemma tail_eq_refl: "tail_eq A A"
  by (induction A) (auto intro: tail_eq.intros)

lemma blank_Cons: "blank (c # l) \<longleftrightarrow> is_space c \<and> blank l"
  by (auto simp: strip_empty_iff)

lemma tail_eq_cons_first: "tail_eq A B \<Longrightarrow> tail_eq (cons_first c A) (cons_first c B)"
proof (induction rule: tail_eq.cases)
  case (blanks A B)
  show ?case
  proof (cases A)
    case Nil
    show ?thesis
    proof (cases B)
      case bn: Nil
      with Nil blanks show ?thesis by (simp add: tail_eq_refl)
    next
      case (Cons b B')
      with blanks have "rstrip b = []" and "\<forall>l\<in>set B'. blank l"
        by (simp_all add: blank_rstrip)
      then have "tail_eq ([c] # []) ((c # b) # B')"
        by (intro tail_eq.last) (simp_all add: rstrip_Cons rstrip_Nil)
      with Nil Cons blanks show ?thesis by simp
    qed
  next
    case (Cons a A')
    with blanks have a: "rstrip a = []" "\<forall>l\<in>set A'. blank l"
      by (simp_all add: blank_rstrip)
    show ?thesis
    proof (cases B)
      case Nil
      from a have "tail_eq ((c # a) # A') ([c] # [])"
        by (intro tail_eq.last) (simp_all add: rstrip_Cons rstrip_Nil)
      with Nil Cons blanks show ?thesis by simp
    next
      case bc: (Cons b B')
      with blanks have "rstrip b = []" and "\<forall>l\<in>set B'. blank l"
        by (simp_all add: blank_rstrip)
      with a have "tail_eq ((c # a) # A') ((c # b) # B')"
        by (intro tail_eq.last) (simp_all add: rstrip_Cons rstrip_Nil)
      with bc Cons blanks show ?thesis by simp
    qed
  qed
next
  case (last a b A B)
  then have "tail_eq ((c # a) # A) ((c # b) # B)"
    by (intro tail_eq.last) (simp_all add: rstrip_Cons rstrip_Nil)
  with last show ?case by simp
next
  case (cons A B l)
  then have "tail_eq ((c # l) # A) ((c # l) # B)"
    by (intro tail_eq.cons)
  with cons show ?case by simp
qed

lemma skip_lf_append: "cs \<noteq> [] \<Longrightarrow> skip_lf c (cs @ ws) = skip_lf c cs @ ws"
  by (cases cs) (auto simp: skip_lf_def)

lemma tail_eq_splitlines:
  "\<forall>c\<in>set ws. is_space c \<Longrightarrow> tail_eq (splitlines s) (splitlines (s @ ws))"
proof (induction s rule: splitlines.induct)
  case 1
  then show ?case using lines_of_space[of ws] by (auto intro: tail_eq.blanks)
next
  case (2 c cs)
  show ?case
  proof (cases "is_linebreak c")
    case False
    with 2 have "tail_eq (splitlines cs) (splitlines (cs @ ws))" by simp
    then have "tail_eq (cons_first c (splitlines cs)) (cons_first c (splitlines (cs @ ws)))"
      by (rule tail_eq_cons_first)
    with False show ?thesis by simp
  next
    case True
    show ?thesis
    proof (cases "cs = []")
      case cn: True
      have "\<forall>c\<in>set (skip_lf c ws). is_space c" using "2.prems" set_skip_lf[of c ws] by auto
      then have "\<forall>l\<in>set (splitlines (skip_lf c ws)). blank l" by (rule lines_of_space)
      then have "tail_eq ([[]]) ([] # splitlines (skip_lf c ws))"
        by (intro tail_eq.blanks) (simp_all add: strip_empty_iff)
      with True cn show ?thesis by (simp add: skip_lf_def)
    next
      case False
      with 2 True have "tail_eq (splitlines (skip_lf c cs)) (splitlines (skip_lf c cs @ ws))"
        by simp
      then have "tail_eq ([] # splitlines (skip_lf c cs)) ([] # splitlines (skip_lf c cs @ ws))"
        by (rule tail_eq.cons)
      with True False show ?thesis by (simp add: skip_lf_append)
    qed
  qed
qed

lemma block_blanks: "\<forall>l\<in>set A. blank l \<Longrightarrow> \<not> topic_in_block A"
  by (cases A) (auto simp: topic_in_block_def)

lemma block_Cons:
  "topic_in_block (l # A) \<longleftrightarrow> \<not> blank l \<and> (is_topic_line l \<or> topic_in_block A)"
  by (auto simp: topic_in_block_def)

lemma tail_eq_block: "tail_eq A B \<Longrightarrow> topic_in_block A = topic_in_block B"
proof (induction rule: tail_eq.induct)
  case (blanks A B)
  then show ?case by (simp add: block_blanks)
next
  case (last a b A B)
  from last.hyps(1) have "strip a = strip b" by (rule rstrip_eq_strip_eq)
  with last show ?case by (simp add: block_Cons block_blanks)
next
  case (cons A B l)
  then show ?case by (simp add: block_Cons)
qed

lemma has_topic_blanks: "\<forall>l\<in>set A. blank l \<Longrightarrow> \<not> has_topic A"
proof -
  assume "\<forall>l\<in>set A. blank l"
  then have d: "dropWhile blank A = []" by simp
  show ?thesis unfolding has_topic_def d by simp
qed

lemma has_topic_Cons:
  "has_topic (l # A) = (if blank l then has_topic A else topic_in_block A)"
  by (simp add: has_topic_def)

lemma tail_eq_has_topic: "tail_eq A B \<Longrightarrow> has_topic A = has_topic B"
proof (induction rule: tail_eq.induct)
  case (blanks A B)
  then show ?case by (simp add: has_topic_blanks)
next
  case (last a b A B)
  from last.hyps(1) have "strip a = strip b" by (rule rstrip_eq_strip_eq)
  with last show ?case by (simp add: has_topic_Cons has_topic_blanks block_blanks)
next
  case (cons A B l)
  from cons.hyps have "topic_in_block A = topic_in_block B" by (rule tail_eq_block)
  with cons.IH show ?case by (simp add: has_topic_Cons)
qed

lemma has_topic_back:
  "\<forall>c\<in>set ws. is_space c \<Longrightarrow> has_topic (splitlines (s @ ws)) = has_topic (splitlines s)"
  using tail_eq_has_topic[OF tail_eq_splitlines, of ws s] by simp

lemma has_topic_cons_first:
  "is_space w \<Longrightarrow> has_topic (cons_first w L) = has_topic L"
proof (cases L)
  case Nil
  assume "is_space w"
  then have "blank [w]" by (simp add: strip_empty_iff)
  with Nil show ?thesis by (simp add: has_topic_def)
next
  case (Cons l ls)
  assume "is_space w"
  then have "strip (w # l) = strip l" by (rule strip_space_Cons)
  with Cons show ?thesis by (simp add: has_topic_Cons)
qed

lemma has_topic_front1:
  assumes "is_space w"
  shows "has_topic (splitlines (w # s)) = has_topic (splitlines s)"
proof (cases "is_linebreak w")
  case False
  with assms show ?thesis by (simp add: has_topic_cons_first)
next
  case True
  have e: "blank []" by (simp add: strip_empty_iff)
  show ?thesis
  proof (cases "w = CR \<and> s \<noteq> [] \<and> hd s = NL")
    case False
    then have "skip_lf w s = s" by (auto simp: skip_lf_def)
    with True e show ?thesis by (simp add: has_topic_Cons)
  next
    case skip: True
    then obtain s' where s: "s = NL # s'" by (cases s) auto
    then have "splitlines s = [] # splitlines s'"
      by (simp add: NL_linebreak skip_lf_NL)
    moreover from skip s have "skip_lf w s = s'" by (simp add: skip_lf_def)
    ultimately show ?thesis using True e by (simp add: has_topic_Cons)
  qed
qed

lemma has_topic_front:
  "\<forall>c\<in>set ws. is_space c \<Longrightarrow> has_topic (splitlines (ws @ s)) = has_topic (splitlines s)"
proof (induction ws)
  case Nil
  then show ?case by simp
next
  case (Cons a ws)
  then have a: "is_space a" and w: "\<forall>c\<in>set ws. is_space c" by simp_all
  have "has_topic (splitlines (a # (ws @ s))) = has_topic (splitlines (ws @ s))"
    using a by (rule has_topic_front1)
  also have "\<dots> = has_topic (splitlines s)"
    using w by (rule Cons.IH)
  finally show ?case by (simp only: append_Cons)
qed

lemma has_topic_strip: "has_topic (splitlines (strip s)) = has_topic (splitlines s)"
proof -
  from strip_split[of s] obtain w1 w2 where
    w: "s = w1 @ strip s @ w2" "\<forall>c\<in>set w1. is_space c" "\<forall>c\<in>set w2. is_space c"
    by blast
  have "has_topic (splitlines (w1 @ strip s @ w2)) = has_topic (splitlines (strip s @ w2))"
    using w(2) by (rule has_topic_front)
  also have "\<dots> = has_topic (splitlines (strip s))"
    using w(3) by (rule has_topic_back)
  finally have "has_topic (splitlines (w1 @ strip s @ w2)) = has_topic (splitlines (strip s))" .
  then show ?thesis by (simp only: w(1)[symmetric])
qed

lemma all_blank_lines:
  "\<forall>l\<in>set (splitlines s). blank l \<Longrightarrow> \<forall>c\<in>set s. is_space c"
proof (induction s rule: splitlines.induct)
  case 1
  then show ?case by simp
next
  case (2 c cs)
  show ?case
  proof (cases "is_linebreak c")
    case True
    with 2 have r: "\<forall>c\<in>set (skip_lf c cs). is_space c" by simp
    have "\<forall>c\<in>set cs. is_space c"
    proof (cases "c = CR \<and> cs \<noteq> [] \<and> hd cs = NL")
      case False
      then have "skip_lf c cs = cs" by (auto simp: skip_lf_def)
      with r show ?thesis by simp
    next
      case skip: True
      then obtain cs' where cs: "cs = NL # cs'" by (cases cs) auto
      with skip have "skip_lf c cs = cs'" by (simp add: skip_lf_def)
      with r cs linebreak_is_space[OF NL_linebreak] show ?thesis by simp
    qed
    with True linebreak_is_space[of c] show ?thesis by simp
  next
    case False
    with "2.prems" have b: "\<forall>l\<in>set (cons_first c (splitlines cs)). blank l" by simp
    have "is_space c \<and> (\<forall>l\<in>set (splitlines cs). blank l)"
    proof (cases "splitlines cs")
      case Nil
      with b show ?thesis by (simp add: blank_Cons)
    next
      case (Cons l ls)
      with b show ?thesis by (simp add: blank_Cons)
    qed
    with "2.IH"(2)[OF False] show ?thesis by simp
  qed
qed

lemma has_topic_decomp:
  "\<forall>p\<in>set pre. blank p \<Longrightarrow> \<not> blank s \<Longrightarrow> has_topic (pre @ s # rest) = topic_in_block rest"
  by (induction pre) (simp_all add: has_topic_Cons)

lemma ensure_has_topic:
  assumes "has_topic (splitlines m)"
  shows "ensure_topic_line m t = strip m"
proof -
  from blank_split[of "splitlines m"] assms has_topic_blanks[of "splitlines m"]
  obtain pre s rest where d: "splitlines m = pre @ s # rest" "\<forall>p\<in>set pre. blank p" "\<not> blank s"
    by blast
  with assms have "topic_in_block rest" by (simp add: has_topic_decomp)
  with ensure_decomp[OF d, of t] show ?thesis by simp
qed

lemma join_nl_Cons: "zs \<noteq> [] \<Longrightarrow> join_nl (x # zs) = x @ NL # join_nl zs"
  by (cases zs) simp_all

lemma join_nl_append:
  "ys \<noteq> [] \<Longrightarrow> join_nl (pre @ ys) = concat (map (\<lambda>p. p @ [NL]) pre) @ join_nl ys"
  by (induction pre) (simp_all add: join_nl_Cons)

lemma blank_prefix_space:
  "\<forall>p\<in>set pre. blank p \<Longrightarrow> \<forall>c\<in>set (concat (map (\<lambda>p. p @ [NL]) pre)). is_space c"
  using linebreak_is_space[OF NL_linebreak] by (auto simp: strip_empty_iff)

lemma join_nl_head: "\<exists>z. join_nl (x # rest) = x @ z"
  by (cases rest) simp_all

lemma splitlines_prefix:
  "no_break a \<Longrightarrow> a \<noteq> [] \<Longrightarrow> \<exists>l ls. splitlines (a @ y) = (a @ l) # ls"
proof (induction a)
  case Nil
  then show ?case by simp
next
  case (Cons c a)
  then have nb: "\<not> is_linebreak c" "no_break a" by (simp_all add: no_break_def)
  show ?case
  proof (cases "a = []")
    case True
    show ?thesis
    proof (cases "splitlines y")
      case Nil
      with True nb have "splitlines ((c # a) @ y) = ((c # a) @ []) # []" by simp
      then show ?thesis by blast
    next
      case (Cons l ls)
      with True nb have "splitlines ((c # a) @ y) = ((c # a) @ l) # ls" by simp
      then show ?thesis by blast
    qed
  next
    case False
    with Cons.IH nb obtain l ls where "splitlines (a @ y) = (a @ l) # ls" by blast
    with nb have "splitlines ((c # a) @ y) = ((c # a) @ l) # ls" by simp
    then show ?thesis by blast
  qed
qed

lemma rstrip_Cons_nonspace: "\<not> is_space c \<Longrightarrow> rstrip (c # l) = c # rstrip l"
  by (simp add: rstrip_Cons)

lemma topic_prefix_line: "\<not> blank (''Topic: '' @ l) \<and> is_topic_line (''Topic: '' @ l)"
proof -
  have n: "\<not> is_space CHR ''T''" "\<not> is_space CHR ''o''" "\<not> is_space CHR ''p''"
    "\<not> is_space CHR ''i''" "\<not> is_space CHR ''c''" "\<not> is_space CHR '':''"
    by (simp_all add: is_space_def)
  have "lstrip (''Topic: '' @ l) = ''Topic: '' @ l"
    using n(1) by (simp add: lstrip_def)
  then have s: "strip (''Topic: '' @ l) = ''Topic:'' @ rstrip (CHR '' '' # l)"
    using n by (simp add: strip_def rstrip_Cons_nonspace)
  have low: "lower ''Topic:'' = ''topic:''" by code_simp
  have "lower (''Topic:'' @ rstrip (CHR '' '' # l)) = ''topic:'' @ lower (rstrip (CHR '' '' # l))"
    unfolding low[symmetric] by (simp add: lower_def)
  with s have "is_topic_line (''Topic: '' @ l)" by (simp add: startswith_def)
  moreover from s have "\<not> blank (''Topic: '' @ l)" by simp
  ultimately show ?thesis by blast
qed

lemma has_topic_inserted:
  assumes "\<forall>p\<in>set pre. blank p" "\<not> blank s" "no_break s"
  shows "has_topic (splitlines (join_nl (pre @ [s, ''Topic: '' @ tt] @ rest)))"
proof -
  let ?T = "''Topic: '' @ tt"
  let ?W = "concat (map (\<lambda>p. p @ [NL]) pre)"
  obtain z where z: "join_nl (?T # rest) = ?T @ z" using join_nl_head by blast
  have "join_nl (pre @ [s, ?T] @ rest) = ?W @ join_nl (s # ?T # rest)"
    using join_nl_append[of "s # ?T # rest" pre] by simp
  also have "join_nl (s # ?T # rest) = s @ NL # join_nl (?T # rest)" by simp
  finally have x: "join_nl (pre @ [s, ?T] @ rest) = ?W @ (s @ NL # ''Topic: '' @ (tt @ z))"
    using z by simp
  have nb: "no_break ''Topic: ''" by (simp add: no_break_def is_linebreak_def)
  from splitlines_prefix[OF nb, of "tt @ z"] obtain l ls where
    t: "splitlines (''Topic: '' @ (tt @ z)) = (''Topic: '' @ l) # ls" by blast
  have "has_topic (splitlines (?W @ (s @ NL # ''Topic: '' @ (tt @ z))))
      = has_topic (splitlines (s @ NL # ''Topic: '' @ (tt @ z)))"
    using blank_prefix_space[OF assms(1)] by (rule has_topic_front)
  also have "splitlines (s @ NL # ''Topic: '' @ (tt @ z)) = s # splitlines (''Topic: '' @ (tt @ z))"
    using assms(3) by (rule splitlines_clean_NL)
  also have "has_topic (s # splitlines (''Topic: '' @ (tt @ z)))
      = topic_in_block ((''Topic: '' @ l) # ls)"
    using assms(2) t by (simp only: has_topic_Cons if_False)
  also have "\<dots>" using topic_prefix_line[of l] by (simp only: block_Cons simp_thms)
  finally show ?thesis by (simp only: x)
qed

section \<open>Claims\<close>

text \<open>
  Claim C7. Every digest \<open>(text, truncated, totalLines, keptLines)\<close> that
  \<open>truncate_diff\<close> returns, for every diff and every configured limit, has
  \<open>keptLines \<le> totalLines\<close>, and \<open>truncated\<close> is true exactly when
  \<open>keptLines < totalLines\<close>.
\<close>

theorem truncate_diff_invariant: "digest_invariant (truncate_diff limit diff_text)"
  by (simp add: digest_invariant_def truncate_diff_def Let_def)

text \<open>
  Claim C9. When the model id is not a key of the pricing table, \<open>estimate_cost_usd\<close>
  returns \<open>None\<close> and raises nothing, whatever the usage mapping holds.
\<close>

theorem estimate_cost_unknown_model:
  "table model = None \<Longrightarrow> estimate_cost_usd table model usage = Inr None"
  by (simp add: estimate_cost_usd_def)

theorem estimate_cost_unknown_model_witness:
  "[''gpt-5-mini'' \<mapsto> [(''input'', 1 / 4), (''output'', 2)]] ''gpt-4'' = None \<and>
   estimate_cost_usd [''gpt-5-mini'' \<mapsto> [(''input'', 1 / 4), (''output'', 2)]] ''gpt-4''
     [''prompt_tokens'' \<mapsto> JNotInt] = Inr None"
  using estimate_cost_unknown_model
    [of "[''gpt-5-mini'' \<mapsto> [(''input'', 1 / 4), (''output'', 2)]]" "''gpt-4''"
        "[''prompt_tokens'' \<mapsto> JNotInt]"]
  by simp

text \<open>
  Claim C2. If the diff has at most \<open>limit\<close> lines, \<open>truncate_diff\<close> returns the text
  unchanged with \<open>truncated = False\<close>. If it has more than \<open>limit\<close> lines (the limit
  is a number of lines, \<open>0 \<le> limit\<close>), the result is exactly the first \<open>limit\<close> lines
  followed by the two marker lines, an empty line and the line that states how many lines
  were omitted, joined with newlines, with \<open>truncated = True\<close>; read back line by line,
  the returned text has these lines and no others.
\<close>

theorem truncate_diff_spec:
  "(int (length (splitlines d)) \<le> limit \<longrightarrow>
      truncate_diff limit d = (d, False, int (length (splitlines d)), int (length (splitlines d))))
   \<and> (0 \<le> limit \<and> limit < int (length (splitlines d)) \<longrightarrow>
      truncate_diff limit d =
        (join_nl (take (nat limit) (splitlines d)
           @ [[], ''[... truncated '' @ str_of_int (int (length (splitlines d)) - limit)
                   @ '' diff lines ...]'']),
         True, int (length (splitlines d)), limit)
      \<and> length (take (nat limit) (splitlines d)) = nat limit
      \<and> splitlines (fst (truncate_diff limit d)) =
          take (nat limit) (splitlines d)
           @ [[], ''[... truncated '' @ str_of_int (int (length (splitlines d)) - limit)
                   @ '' diff lines ...]''])"
proof (intro conjI impI)
  assume "int (length (splitlines d)) \<le> limit"
  then show "truncate_diff limit d =
      (d, False, int (length (splitlines d)), int (length (splitlines d)))"
    by (simp add: truncate_diff_def Let_def)
next
  assume a: "0 \<le> limit \<and> limit < int (length (splitlines d))"
  let ?m = "''[... truncated '' @ str_of_int (int (length (splitlines d)) - limit)
                   @ '' diff lines ...]''"
  let ?kept = "take (nat limit) (splitlines d) @ [[], ?m]"
  from a show e: "truncate_diff limit d = (join_nl ?kept, True, int (length (splitlines d)), limit)"
    by (simp add: truncate_diff_def Let_def slice_to_def)
  from a have "nat limit \<le> length (splitlines d)" by linarith
  then show "length (take (nat limit) (splitlines d)) = nat limit" by simp
  have "\<forall>l\<in>set ?kept. no_break l"
    using take_lines_no_break[of "nat limit" d] truncate_marker_no_break
    by (simp add: no_break_nil del: append.simps)
  moreover have "?kept \<noteq> []" "last ?kept \<noteq> []" by simp_all
  ultimately have "splitlines (join_nl ?kept) = ?kept"
    by (rule splitlines_join_nl)
  with e show "splitlines (fst (truncate_diff limit d)) = ?kept" by simp
qed

theorem truncate_diff_spec_witness:
  "int (length (splitlines ''a'')) \<le> 1 \<and>
   truncate_diff 1 ''a'' = (''a'', False, 1, 1) \<and>
   (0::int) \<le> 1 \<and> 1 < int (length (splitlines ''a\<newline>b\<newline>c'')) \<and>
   truncate_diff 1 ''a\<newline>b\<newline>c''
     = (''a\<newline>\<newline>[... truncated 2 diff lines ...]'', True, 3, 1)"
proof -
  have l1: "splitlines ''a'' = [''a'']" by code_simp
  have l3: "splitlines ''a\<newline>b\<newline>c'' = [''a'', ''b'', ''c'']" by code_simp
  have m: "str_of_int 2 = ''2''" by code_simp
  from truncate_diff_spec[of "''a''" 1] l1
  have a: "truncate_diff 1 ''a'' = (''a'', False, 1, 1)" by simp
  from truncate_diff_spec[of "''a\<newline>b\<newline>c''" 1] l3 m
  have b: "truncate_diff 1 ''a\<newline>b\<newline>c''
     = (''a\<newline>\<newline>[... truncated 2 diff lines ...]'', True, 3, 1)"
    by (simp add: NL_def)
  from a b l1 l3 show ?thesis by simp
qed

text \<open>
  Claim C1 as stated fails: with the limit 1, the header of the second file of a
  two-file diff is a header line of the input and no line of the output.
\<close>

theorem simplify_drops_later_headers:
  "(0::int) < 1 \<and>
   is_file_header ''diff --git a/y b/y'' \<and>
   ''diff --git a/y b/y''
     \<in> set (splitlines ''diff --git a/x b/x\<newline>+a\<newline>diff --git a/y b/y\<newline>+b'') \<and>
   ''diff --git a/y b/y''
     \<notin> set (splitlines (simplify_diff_for_local
         ''diff --git a/x b/x\<newline>+a\<newline>diff --git a/y b/y\<newline>+b'' 1)) \<and>
   simplify_diff_for_local ''diff --git a/x b/x\<newline>+a\<newline>diff --git a/y b/y\<newline>+b'' 1
     = ''diff --git a/x b/x\<newline>+a\<newline>\<newline>[... truncated after 1 changed lines ...]''"
  by code_simp

text \<open>
  Claim C1, as the code has it. For a positive limit \<open>n\<close>, the output of
  \<open>simplify_diff_for_local\<close> has at most \<open>n\<close> added/removed content lines. Its header
  lines are, in their original order, all header lines of the input when the input has
  fewer than \<open>n\<close> content lines, and otherwise the header lines that come before the
  \<open>n\<close>-th content line: the loop stops there, and later headers are not part of the
  output.
\<close>

theorem simplify_keeps_headers_until_limit:
  "0 < n \<Longrightarrow>
   (int (length (filter is_changed (splitlines d))) < n \<longrightarrow>
      filter is_header (splitlines (simplify_diff_for_local d n))
        = filter is_header (splitlines d)) \<and>
   (\<forall>pre c post. splitlines d = pre @ c # post \<and> is_changed c \<and>
        int (length (filter is_changed pre)) = n - 1 \<longrightarrow>
      filter is_header (splitlines (simplify_diff_for_local d n)) = filter is_header pre) \<and>
   int (length (filter is_changed (splitlines (simplify_diff_for_local d n)))) \<le> n"
proof -
  assume n: "0 < n"
  let ?ls = "splitlines d"
  let ?out = "splitlines (simplify_diff_for_local d n)"
  have out: "?out = simplify_loop n ?ls [] 0"
    by (simp add: simplify_output_lines simplify_lines_def)
  have small: "?out = filter kept_line ?ls"
    if "int (length (filter is_changed ?ls)) < n"
    using that simplify_loop_no_break[of 0 ?ls n "[]"] out by simp
  have big: "?out = filter kept_line pre @ [c, [], truncation_marker n]"
    if "?ls = pre @ c # post" "is_changed c" "int (length (filter is_changed pre)) = n - 1"
    for pre c post
    using that simplify_loop_break[of c 0 pre n post "[]"] out by simp
  have 1: "int (length (filter is_changed ?ls)) < n \<longrightarrow>
      filter is_header ?out = filter is_header ?ls"
  proof
    assume "int (length (filter is_changed ?ls)) < n"
    then have "?out = filter kept_line ?ls" by (rule small)
    then show "filter is_header ?out = filter is_header ?ls"
      by (simp only: filter_header_kept)
  qed
  have 2: "\<forall>pre c post. ?ls = pre @ c # post \<and> is_changed c \<and>
        int (length (filter is_changed pre)) = n - 1 \<longrightarrow>
      filter is_header ?out = filter is_header pre"
  proof (intro allI impI)
    fix pre c post
    assume a: "?ls = pre @ c # post \<and> is_changed c \<and>
        int (length (filter is_changed pre)) = n - 1"
    then have "?out = filter kept_line pre @ [c, [], truncation_marker n]"
      using big by blast
    with a changed_not_header[of c] show "filter is_header ?out = filter is_header pre"
      by (simp add: filter_header_kept marker_not_header nil_not_kept del: filter_filter)
  qed
  have 3: "int (length (filter is_changed ?out)) \<le> n"
  proof (cases "int (length (filter is_changed ?ls)) < n")
    case True
    with small show ?thesis by (simp add: filter_changed_kept del: filter_filter)
  next
    case False
    with n have "Suc (nat (n - 1)) \<le> length (filter is_changed ?ls)" by linarith
    from filter_count_split[OF this] obtain pre c post where
      p: "?ls = pre @ c # post" "is_changed c" "length (filter is_changed pre) = nat (n - 1)"
      by blast
    with n have "int (length (filter is_changed pre)) = n - 1" by simp
    from big[OF p(1) p(2) this] p n show ?thesis
      by (simp add: filter_changed_kept marker_not_changed nil_not_kept del: filter_filter)
  qed
  from 1 2 3 show ?thesis by blast
qed

theorem simplify_keeps_headers_until_limit_witness:
  "(0::int) < 1 \<and>
   splitlines ''diff --git a/x b/x\<newline>+a\<newline>diff --git a/y b/y\<newline>+b''
     = [''diff --git a/x b/x''] @ ''+a'' # [''diff --git a/y b/y'', ''+b''] \<and>
   is_changed ''+a'' \<and>
   int (length (filter is_changed [''diff --git a/x b/x''])) = 1 - 1 \<and>
   filter is_header (splitlines (simplify_diff_for_local
       ''diff --git a/x b/x\<newline>+a\<newline>diff --git a/y b/y\<newline>+b'' 1))
     = filter is_header [''diff --git a/x b/x''] \<and>
   int (length (filter is_changed (splitlines (simplify_diff_for_local
       ''diff --git a/x b/x\<newline>+a\<newline>diff --git a/y b/y\<newline>+b'' 1)))) \<le> 1"
proof -
  have s: "splitlines ''diff --git a/x b/x\<newline>+a\<newline>diff --git a/y b/y\<newline>+b''
     = [''diff --git a/x b/x''] @ ''+a'' # [''diff --git a/y b/y'', ''+b'']"
    by code_simp
  have c: "is_changed ''+a''" by code_simp
  have k: "int (length (filter is_changed [''diff --git a/x b/x''])) = 1 - 1" by code_simp
  have n: "(0::int) < 1" by simp
  note t = simplify_keeps_headers_until_limit
    [OF n, of "''diff --git a/x b/x\<newline>+a\<newline>diff --git a/y b/y\<newline>+b''"]
  note h = t[THEN conjunct2, THEN conjunct1, rule_format, OF conjI[OF s conjI[OF c k]]]
  note b = t[THEN conjunct2, THEN conjunct2]
  show ?thesis by (intro conjI) (rule n s c k h b)+
qed

text \<open>
  Claim C8. When the command is \<open>commit\<close> and the staged diff is empty or consists of
  whitespace only, \<open>main\<close> prints the error "No staged changes. Run: git add <files>",
  exits with code 1, and has called neither backend.
\<close>

theorem empty_diff_exits_before_backend:
  "arg_command e = Some ''commit'' \<Longrightarrow> strip (staged_diff e) = [] \<Longrightarrow>
     main e = ([Error ''No staged changes. Run: git add <files>''], Exit 1) \<and>
     snd (main e) = Exit 1 \<and> filter is_backend_call (fst (main e)) = []"
  by (simp add: main_def Let_def)

theorem empty_diff_exits_before_backend_witness:
  "arg_command \<lparr>arg_command = Some ''commit'', arg_local = True, arg_api = False,
      arg_manual_message = ''topic'', DEFAULT_BACKEND = ''api'', MAX_DIFF_LINES = 360,
      MAX_LOCAL_CHANGED_LINES = 180, API_MODEL = ''gpt-5-mini'',
      API_KEY_ENV_NAME = ''OPENAI_API_KEY'', LOCAL_MODEL = ''gpt-oss:20b'',
      PRICING = Map.empty, staged_diff = '' \<newline>'', staged_files = [],
      build_prompt = (\<lambda>files diff topic. diff), api_key = Some ''k'',
      call_api = (\<lambda>k p. Inr (''feat: x'', Map.empty)),
      generate_commit_message_local = (\<lambda>p m. Inr (''feat: x'', Map.empty)),
      user_input = ''y'', git_commit = (\<lambda>cmd. 0)\<rparr> = Some ''commit'' \<and>
   strip '' \<newline>'' = [] \<and>
   snd (main \<lparr>arg_command = Some ''commit'', arg_local = True, arg_api = False,
      arg_manual_message = ''topic'', DEFAULT_BACKEND = ''api'', MAX_DIFF_LINES = 360,
      MAX_LOCAL_CHANGED_LINES = 180, API_MODEL = ''gpt-5-mini'',
      API_KEY_ENV_NAME = ''OPENAI_API_KEY'', LOCAL_MODEL = ''gpt-oss:20b'',
      PRICING = Map.empty, staged_diff = '' \<newline>'', staged_files = [],
      build_prompt = (\<lambda>files diff topic. diff), api_key = Some ''k'',
      call_api = (\<lambda>k p. Inr (''feat: x'', Map.empty)),
      generate_commit_message_local = (\<lambda>p m. Inr (''feat: x'', Map.empty)),
      user_input = ''y'', git_commit = (\<lambda>cmd. 0)\<rparr>) = Exit 1"
proof -
  have s: "strip '' \<newline>'' = []"
    by (simp add: strip_def rstrip_def lstrip_def is_space_def)
  show ?thesis
    using s empty_diff_exits_before_backend
      [of "\<lparr>arg_command = Some ''commit'', arg_local = True, arg_api = False,
      arg_manual_message = ''topic'', DEFAULT_BACKEND = ''api'', MAX_DIFF_LINES = 360,
      MAX_LOCAL_CHANGED_LINES = 180, API_MODEL = ''gpt-5-mini'',
      API_KEY_ENV_NAME = ''OPENAI_API_KEY'', LOCAL_MODEL = ''gpt-oss:20b'',
      PRICING = Map.empty, staged_diff = '' \<newline>'', staged_files = [],
      build_prompt = (\<lambda>files diff topic. diff), api_key = Some ''k'',
      call_api = (\<lambda>k p. Inr (''feat: x'', Map.empty)),
      generate_commit_message_local = (\<lambda>p m. Inr (''feat: x'', Map.empty)),
      user_input = ''y'', git_commit = (\<lambda>cmd. 0)\<rparr>"]
    by simp
qed

text \<open>
  Claim C10. If the input has at least \<open>n\<close> content lines (\<open>n \<ge> 1\<close>), the output
  consists of the kept lines before the \<open>n\<close>-th content line, that content line, an
  empty line and the marker "[... truncated after n changed lines ...]". What follows the
  \<open>n\<close>-th content line in the input plays no role: the marker is there also when
  nothing follows.
\<close>

theorem simplify_marker_at_limit:
  "1 \<le> n \<Longrightarrow> n \<le> int (length (filter is_changed (splitlines d))) \<Longrightarrow>
     \<exists>pre c post. splitlines d = pre @ c # post \<and> is_changed c \<and>
       int (length (filter is_changed pre)) = n - 1 \<and>
       simplify_diff_for_local d n = join_nl (filter kept_line pre @ [c, [], truncation_marker n]) \<and>
       splitlines (simplify_diff_for_local d n) = filter kept_line pre @ [c, [], truncation_marker n]"
proof -
  assume n: "1 \<le> n" and m: "n \<le> int (length (filter is_changed (splitlines d)))"
  then have "Suc (nat (n - 1)) \<le> length (filter is_changed (splitlines d))" by linarith
  from filter_count_split[OF this] obtain pre c post where
    p: "splitlines d = pre @ c # post" "is_changed c"
       "length (filter is_changed pre) = nat (n - 1)"
    by blast
  with n have k: "int (length (filter is_changed pre)) = n - 1" by simp
  then have l: "simplify_lines d n = filter kept_line pre @ [c, [], truncation_marker n]"
    using simplify_loop_break[of c 0 pre n post "[]"] p by (simp add: simplify_lines_def)
  then have "simplify_diff_for_local d n = join_nl (filter kept_line pre @ [c, [], truncation_marker n])"
    by (simp add: simplify_diff_for_local_def)
  moreover from l have "splitlines (simplify_diff_for_local d n) = filter kept_line pre @ [c, [], truncation_marker n]"
    by (simp add: simplify_output_lines)
  ultimately show ?thesis using p k by blast
qed

theorem simplify_marker_at_limit_witness:
  "(1::int) \<le> 1 \<and> 1 \<le> int (length (filter is_changed (splitlines ''@@ -1 +1 @@\<newline>+a''))) \<and>
   (\<exists>pre c post. splitlines ''@@ -1 +1 @@\<newline>+a'' = pre @ c # post \<and> is_changed c \<and>
       int (length (filter is_changed pre)) = 1 - 1 \<and>
       simplify_diff_for_local ''@@ -1 +1 @@\<newline>+a'' 1
         = join_nl (filter kept_line pre @ [c, [], truncation_marker 1]) \<and>
       splitlines (simplify_diff_for_local ''@@ -1 +1 @@\<newline>+a'' 1)
         = filter kept_line pre @ [c, [], truncation_marker 1]) \<and>
   simplify_diff_for_local ''@@ -1 +1 @@\<newline>+a'' 1
     = ''@@ -1 +1 @@\<newline>+a\<newline>\<newline>[... truncated after 1 changed lines ...]''"
proof -
  have a: "(1::int) \<le> 1" by simp
  have b: "1 \<le> int (length (filter is_changed (splitlines ''@@ -1 +1 @@\<newline>+a'')))"
    by code_simp
  have c: "simplify_diff_for_local ''@@ -1 +1 @@\<newline>+a'' 1
     = ''@@ -1 +1 @@\<newline>+a\<newline>\<newline>[... truncated after 1 changed lines ...]''"
    by code_simp
  from simplify_marker_at_limit[OF a b] a b c show ?thesis by blast
qed

text \<open>
  Claim C3. Whenever the lines of the message are blank lines \<open>pre\<close>, then a line
  \<open>subject\<close> that is not blank, then \<open>rest\<close>, the split yields that line as subject
  and, as body, \<open>rest\<close> without its first line if that one is blank, joined with newlines
  and with trailing whitespace removed. When no line of the message is non-blank, the split
  ends the process with exit code 1. The example of the specification is the third part.
\<close>

theorem split_message_spec:
  "(\<forall>pre subject rest.
      splitlines msg = pre @ subject # rest \<and> (\<forall>p\<in>set pre. blank p) \<and> \<not> blank subject \<longrightarrow>
      split_message msg =
        Inr (subject,
             rstrip (join_nl (if rest \<noteq> [] \<and> blank (hd rest) then tl rest else rest)))) \<and>
   ((\<forall>l\<in>set (splitlines msg). blank l) \<longrightarrow> split_message msg = Inl 1) \<and>
   split_message ''Subject line\<newline>\<newline>CHANGES:\<newline>- a\<newline>\<newline>Files changed:\<newline>- x''
     = Inr (''Subject line'', ''CHANGES:\<newline>- a\<newline>\<newline>Files changed:\<newline>- x'')"
proof (intro conjI allI impI)
  fix pre subject rest
  assume a: "splitlines msg = pre @ subject # rest \<and> (\<forall>p\<in>set pre. blank p) \<and> \<not> blank subject"
  then have f: "first_nonblank (splitlines msg) 0 = Some (length pre, subject)"
    using first_nonblank_pre[of pre subject rest 0] by simp
  from a have d: "drop (length pre + 1) (splitlines msg) = rest" by simp
  from a show "split_message msg =
        Inr (subject,
             rstrip (join_nl (if rest \<noteq> [] \<and> blank (hd rest) then tl rest else rest)))"
    unfolding split_message_def Let_def f using d by simp
next
  assume "\<forall>l\<in>set (splitlines msg). blank l"
  then have "first_nonblank (splitlines msg) 0 = None" by (rule first_nonblank_None)
  then show "split_message msg = Inl 1"
    by (simp add: split_message_def Let_def strip_def rstrip_def lstrip_def)
next
  show "split_message ''Subject line\<newline>\<newline>CHANGES:\<newline>- a\<newline>\<newline>Files changed:\<newline>- x''
     = Inr (''Subject line'', ''CHANGES:\<newline>- a\<newline>\<newline>Files changed:\<newline>- x'')"
    by code_simp
qed

theorem split_message_spec_witness:
  "splitlines ''\<newline>Subj \<newline> \<newline>Body\<newline>'' = [[]] @ ''Subj '' # ['' '', ''Body''] \<and>
   blank [] \<and> \<not> blank ''Subj '' \<and>
   split_message ''\<newline>Subj \<newline> \<newline>Body\<newline>'' = Inr (''Subj '', ''Body'') \<and>
   splitlines '' \<newline> '' = ['' '', '' ''] \<and> blank '' '' \<and>
   split_message '' \<newline> '' = Inl 1"
proof -
  have s: "splitlines ''\<newline>Subj \<newline> \<newline>Body\<newline>'' = [[]] @ ''Subj '' # ['' '', ''Body'']"
    by code_simp
  have p: "\<forall>p\<in>set [[]]. blank p" by code_simp
  have n: "\<not> blank ''Subj ''" by code_simp
  have b: "rstrip (join_nl (if ['' '', ''Body''] \<noteq> [] \<and> blank (hd ['' '', ''Body''])
             then tl ['' '', ''Body''] else ['' '', ''Body''])) = ''Body''"
    by code_simp
  have w: "\<forall>l\<in>set (splitlines '' \<newline> ''). blank l" by code_simp
  note t1 = split_message_spec[of "''\<newline>Subj \<newline> \<newline>Body\<newline>''", THEN conjunct1, rule_format,
      OF conjI[OF s conjI[OF p n]]]
  note t2 = split_message_spec[of "'' \<newline> ''", THEN conjunct2, THEN conjunct1, THEN mp, OF w]
  from t1 b have r: "split_message ''\<newline>Subj \<newline> \<newline>Body\<newline>'' = Inr (''Subj '', ''Body'')"
    by (simp only:)
  have e: "blank []" by code_simp
  have l: "splitlines '' \<newline> '' = ['' '', '' '']" by code_simp
  have k: "blank '' ''" by code_simp
  show ?thesis by (intro conjI) (rule s e n r l k t2)+
qed

text \<open>
  Claim C4 as stated fails. A manual topic of one space is not empty, and no Topic line is
  inserted for it. And for the message " Subject" and the topic " T1 ", the result is not
  the message with the line "Topic:  T1 " after its subject line: topic and result are
  stripped.
\<close>

theorem ensure_topic_not_inserted:
  "'' '' \<noteq> [] \<and>
   splitlines ''Subject\<newline>\<newline>Body'' = [] @ ''Subject'' # [[], ''Body''] \<and>
   \<not> blank ''Subject'' \<and> \<not> topic_in_block [[], ''Body''] \<and>
   ensure_topic_line ''Subject\<newline>\<newline>Body'' '' '' = ''Subject\<newline>\<newline>Body'' \<and>
   splitlines '' Subject'' = [] @ '' Subject'' # [] \<and>
   \<not> blank '' Subject'' \<and> \<not> topic_in_block [] \<and>
   ensure_topic_line '' Subject'' '' T1 '' = ''Subject\<newline>Topic: T1'' \<and>
   ensure_topic_line '' Subject'' '' T1 '' \<noteq> join_nl ([] @ ['' Subject'', ''Topic: '' @ '' T1 ''] @ [])"
  by code_simp

text \<open>
  Claim C4, as the code has it. If the manual topic is not blank (not empty after
  stripping), the message has a subject line, and no Topic line is among the non-blank
  lines right after the subject, then \<open>ensure_topic_line\<close> returns the lines of the message
  with the line "Topic: " followed by the stripped topic inserted directly after the
  subject line, joined with newlines and stripped of leading and trailing whitespace. The
  example of the specification is the second part.
\<close>

theorem ensure_topic_inserts:
  "\<not> blank manual_topic \<Longrightarrow> splitlines msg = pre @ subject # rest \<Longrightarrow>
   \<forall>p\<in>set pre. blank p \<Longrightarrow> \<not> blank subject \<Longrightarrow> \<not> topic_in_block rest \<Longrightarrow>
     ensure_topic_line msg manual_topic
       = strip (join_nl (pre @ [subject, ''Topic: '' @ strip manual_topic] @ rest)) \<and>
     ensure_topic_line ''Subject\<newline>\<newline>Body'' ''T1'' = ''Subject\<newline>Topic: T1\<newline>\<newline>Body''"
proof
  assume "\<not> blank manual_topic" "splitlines msg = pre @ subject # rest"
    "\<forall>p\<in>set pre. blank p" "\<not> blank subject" "\<not> topic_in_block rest"
  then show "ensure_topic_line msg manual_topic
       = strip (join_nl (pre @ [subject, ''Topic: '' @ strip manual_topic] @ rest))"
    using ensure_decomp[of msg pre subject rest manual_topic] by simp
next
  show "ensure_topic_line ''Subject\<newline>\<newline>Body'' ''T1'' = ''Subject\<newline>Topic: T1\<newline>\<newline>Body''"
    by code_simp
qed

theorem ensure_topic_inserts_witness:
  "\<not> blank '' T1 '' \<and>
   splitlines ''\<newline> Subject\<newline>more\<newline>\<newline>Body\<newline>'' = [[]] @ '' Subject'' # [''more'', [], ''Body''] \<and>
   blank [] \<and> \<not> blank '' Subject'' \<and>
   \<not> topic_in_block [''more'', [], ''Body''] \<and>
   ensure_topic_line ''\<newline> Subject\<newline>more\<newline>\<newline>Body\<newline>'' '' T1 ''
     = ''Subject\<newline>Topic: T1\<newline>more\<newline>\<newline>Body''"
proof -
  have t: "\<not> blank '' T1 ''" by code_simp
  have s: "splitlines ''\<newline> Subject\<newline>more\<newline>\<newline>Body\<newline>'' = [[]] @ '' Subject'' # [''more'', [], ''Body'']"
    by code_simp
  have p: "\<forall>p\<in>set [[]]. blank p" by code_simp
  have n: "\<not> blank '' Subject''" by code_simp
  have b: "\<not> topic_in_block [''more'', [], ''Body'']" by code_simp
  have v: "strip (join_nl ([[]] @ ['' Subject'', ''Topic: '' @ strip '' T1 ''] @ [''more'', [], ''Body'']))
     = ''Subject\<newline>Topic: T1\<newline>more\<newline>\<newline>Body''"
    by code_simp
  note e = ensure_topic_inserts[OF t s p n b, THEN conjunct1]
  from e v have r: "ensure_topic_line ''\<newline> Subject\<newline>more\<newline>\<newline>Body\<newline>'' '' T1 ''
     = ''Subject\<newline>Topic: T1\<newline>more\<newline>\<newline>Body''"
    by (simp only:)
  have e: "blank []" by code_simp
  show ?thesis by (intro conjI) (rule t s e n b r)+
qed

text \<open>
  Claim C5 as stated fails: with an empty topic the message " Subject" comes back as
  "Subject", and a message that has its Topic line and ends with a newline comes back
  without that newline.
\<close>

theorem ensure_topic_not_identity:
  "ensure_topic_line '' Subject'' [] = ''Subject'' \<and>
   ensure_topic_line '' Subject'' [] \<noteq> '' Subject'' \<and>
   splitlines ''Subject\<newline>Topic: x\<newline>'' = [] @ ''Subject'' # [''Topic: x''] \<and>
   \<not> blank ''Subject'' \<and> topic_in_block [''Topic: x''] \<and>
   ensure_topic_line ''Subject\<newline>Topic: x\<newline>'' ''T1'' = ''Subject\<newline>Topic: x'' \<and>
   ensure_topic_line ''Subject\<newline>Topic: x\<newline>'' ''T1'' \<noteq> ''Subject\<newline>Topic: x\<newline>''"
  by code_simp

text \<open>
  Claim C5, as the code has it. If the manual topic is blank (empty or whitespace only), or
  a Topic line (compared after stripping and lower-casing the line) is among the non-blank
  lines right after the subject line, \<open>ensure_topic_line\<close> returns the message stripped of
  leading and trailing whitespace; so it returns the message unchanged when the message has
  no such whitespace.
\<close>

theorem ensure_topic_noop:
  "blank manual_topic \<or>
   (\<exists>pre subject rest. splitlines msg = pre @ subject # rest \<and> (\<forall>p\<in>set pre. blank p) \<and>
      \<not> blank subject \<and> topic_in_block rest) \<Longrightarrow>
     ensure_topic_line msg manual_topic = strip msg \<and>
     (strip msg = msg \<longrightarrow> ensure_topic_line msg manual_topic = msg)"
proof -
  assume a: "blank manual_topic \<or>
   (\<exists>pre subject rest. splitlines msg = pre @ subject # rest \<and> (\<forall>p\<in>set pre. blank p) \<and>
      \<not> blank subject \<and> topic_in_block rest)"
  then have "ensure_topic_line msg manual_topic = strip msg"
  proof
    assume "blank manual_topic"
    then show ?thesis by (rule ensure_blank_topic)
  next
    assume "\<exists>pre subject rest. splitlines msg = pre @ subject # rest \<and> (\<forall>p\<in>set pre. blank p) \<and>
      \<not> blank subject \<and> topic_in_block rest"
    then obtain pre subject rest where
      "splitlines msg = pre @ subject # rest" "\<forall>p\<in>set pre. blank p" "\<not> blank subject"
      "topic_in_block rest" by blast
    then show ?thesis using ensure_decomp[of msg pre subject rest manual_topic] by simp
  qed
  then show ?thesis by simp
qed

theorem ensure_topic_noop_witness:
  "(blank ''T1'' \<or>
    (\<exists>pre subject rest. splitlines ''Subject\<newline>TOPIC: old\<newline>\<newline>Body'' = pre @ subject # rest \<and>
       (\<forall>p\<in>set pre. blank p) \<and> \<not> blank subject \<and> topic_in_block rest)) \<and>
   strip ''Subject\<newline>TOPIC: old\<newline>\<newline>Body'' = ''Subject\<newline>TOPIC: old\<newline>\<newline>Body'' \<and>
   ensure_topic_line ''Subject\<newline>TOPIC: old\<newline>\<newline>Body'' ''T1'' = ''Subject\<newline>TOPIC: old\<newline>\<newline>Body'' \<and>
   blank ''  '' \<and>
   ensure_topic_line '' Subject\<newline>'' ''  '' = strip '' Subject\<newline>''"
proof -
  have s: "splitlines ''Subject\<newline>TOPIC: old\<newline>\<newline>Body'' = [] @ ''Subject'' # [''TOPIC: old'', [], ''Body'']"
    by code_simp
  have p: "\<forall>p\<in>set ([]::string list). blank p" by simp
  have n: "\<not> blank ''Subject''" by code_simp
  have b: "topic_in_block [''TOPIC: old'', [], ''Body'']" by code_simp
  have h: "blank ''T1'' \<or>
    (\<exists>pre subject rest. splitlines ''Subject\<newline>TOPIC: old\<newline>\<newline>Body'' = pre @ subject # rest \<and>
       (\<forall>p\<in>set pre. blank p) \<and> \<not> blank subject \<and> topic_in_block rest)"
    using s p n b by blast
  have i: "strip ''Subject\<newline>TOPIC: old\<newline>\<newline>Body'' = ''Subject\<newline>TOPIC: old\<newline>\<newline>Body''"
    by code_simp
  note r = ensure_topic_noop[OF h, THEN conjunct2, THEN mp, OF i]
  have w: "blank ''  ''" by code_simp
  note q = ensure_topic_noop[of "''  ''" "'' Subject\<newline>''", OF disjI1, OF w, THEN conjunct1]
  show ?thesis by (intro conjI) (rule h i r w q)+
qed

text \<open>
  Claim C6. \<open>ensure_topic_line\<close> is idempotent: for every message and every manual
  topic, applying it a second time with the same topic changes nothing.
\<close>

theorem ensure_topic_line_idempotent:
  "ensure_topic_line (ensure_topic_line msg manual_topic) manual_topic
     = ensure_topic_line msg manual_topic"
proof (cases "blank manual_topic")
  case True
  then show ?thesis by (simp add: ensure_blank_topic strip_idem)
next
  case nt: False
  from blank_split[of "splitlines msg"] show ?thesis
  proof
    assume b: "\<forall>l\<in>set (splitlines msg). blank l"
    then have "\<forall>c\<in>set msg. is_space c" by (rule all_blank_lines)
    then have e: "strip msg = []" by (simp add: strip_empty_iff)
    from b have "ensure_topic_line msg manual_topic = []" by (simp add: ensure_no_subject e)
    moreover have "ensure_topic_line [] manual_topic = []"
      using ensure_no_subject[of "[]" manual_topic] by (simp add: strip_empty_iff)
    ultimately show ?thesis by simp
  next
    assume "\<exists>pre s rest. splitlines msg = pre @ s # rest \<and> (\<forall>p\<in>set pre. blank p) \<and> \<not> blank s"
    then obtain pre s rest where
      d: "splitlines msg = pre @ s # rest" "\<forall>p\<in>set pre. blank p" "\<not> blank s" by blast
    show ?thesis
    proof (cases "topic_in_block rest")
      case True
      with ensure_decomp[OF d, of manual_topic]
      have r: "ensure_topic_line msg manual_topic = strip msg" by simp
      from True d have "has_topic (splitlines msg)" by (simp add: has_topic_decomp)
      then have "has_topic (splitlines (strip msg))" by (simp only: has_topic_strip)
      then have "ensure_topic_line (strip msg) manual_topic = strip (strip msg)"
        by (rule ensure_has_topic)
      with r show ?thesis by (simp add: strip_idem)
    next
      case False
      let ?x = "join_nl (pre @ [s, ''Topic: '' @ strip manual_topic] @ rest)"
      from False nt ensure_decomp[OF d, of manual_topic]
      have r: "ensure_topic_line msg manual_topic = strip ?x" by simp
      from d(1) have "s \<in> set (splitlines msg)" by simp
      then have "no_break s" by (rule splitlines_no_break)
      with d have "has_topic (splitlines ?x)" by (intro has_topic_inserted)
      then have "has_topic (splitlines (strip ?x))" by (simp only: has_topic_strip)
      then have "ensure_topic_line (strip ?x) manual_topic = strip (strip ?x)"
        by (rule ensure_has_topic)
      with r show ?thesis by (simp only: strip_idem)
    qed
  qed
qed

end
